theory Spec2Isabelle
  imports Complex_Main "HOL-Library.Sublist"
begin

section \<open>Worker client: data model (worker/worker.go)\<close>

text \<open>
  A worker is addressed by its URL.  A component path is \<open>(user, repo)\<close>; a component
  id adds the hash, so it is modelled as the extension of the path record: the field
  selectors \<open>User\<close> and \<open>Repo\<close> apply to both, as the Go field names do.  The
  \<open>float64\<close> telemetry is carried around and never computed with; it is modelled
  by \<open>real\<close>.
\<close>

record V9Worker =
  URL :: string

record ComponentPath =
  User :: string
  Repo :: string

record ComponentID = ComponentPath +
  Hash :: string

record ComponentStats =
  ID :: ComponentID
  Color :: string
  StatWindow :: real
  Hits :: real
  AvgResponseBytes :: real
  AvgMsLatency :: real
  LatencyPercentiles :: "real list"

record StatusResponse =
  CPUUsage :: real
  MemoryUsage :: real
  NetworkUsage :: real
  ActiveComponents :: "ComponentStats list"

text \<open>A Go \<open>error\<close> value that is not \<open>nil\<close>.\<close>

datatype go_error = GoError string

subsection \<open>Predicates over a status response\<close>

fun contains :: "ComponentPath list \<Rightarrow> ComponentID \<Rightarrow> bool" where
  "contains [] v = False"
| "contains (c # l) v =
     (if Repo c = Repo v \<and> User c = User v then True else contains l v)"

definition FindNonactive :: "StatusResponse \<Rightarrow> ComponentPath list \<Rightarrow> ComponentID list" where
  "FindNonactive s activeComponents =
     map ID (filter (\<lambda>runningComponent. \<not> contains activeComponents (ID runningComponent))
                    (ActiveComponents s))"

definition ContainsPath :: "StatusResponse \<Rightarrow> ComponentPath \<Rightarrow> bool" where
  "ContainsPath s compPath =
     list_ex (\<lambda>runningComponent. User (ID runningComponent) = User compPath
                                \<and> Repo (ID runningComponent) = Repo compPath)
             (ActiveComponents s)"

definition ContainsExactly :: "StatusResponse \<Rightarrow> ComponentID \<Rightarrow> bool" where
  "ContainsExactly s compID =
     list_ex (\<lambda>runningComponent. ID runningComponent = compID) (ActiveComponents s)"

subsection \<open>The HTTP round trip of \<open>Status\<close>\<close>






section \<open>The action manager (deployment/actionManger.go)\<close>

definition headHashSentinel :: string where
  "headHashSentinel = ''HEAD''"

definition updaterChanSize :: nat where
  "updaterChanSize = 1024"

subsection \<open>Buffered channels\<close>

text \<open>
  A buffered channel is its capacity and the values waiting in it.  A send proceeds when
  the buffer has room and would block otherwise (\<open>None\<close>).
\<close>

record 'a chan =
  capacity :: nat
  buffer :: "'a list"

definition make_chan :: "nat \<Rightarrow> 'a chan" where
  "make_chan n = \<lparr>capacity = n, buffer = []\<rparr>"

definition chan_send :: "'a chan \<Rightarrow> 'a \<Rightarrow> 'a chan option" where
  "chan_send c x =
     (if length (buffer c) < capacity c then Some (c\<lparr>buffer := buffer c @ [x]\<rparr>) else None)"

subsection \<open>Collaborators and the transcript of a pass\<close>

text \<open>
  The database driver, the workers behind their HTTP API, the activator and the random
  source are outside the manager.  They are a record of operations on a world \<open>'w\<close>
  that each call may change; nothing is assumed about them.  \<open>rand_source\<close> yields a raw
  natural number, which \<open>rand.Intn\<close> reduces into its range.
\<close>

record 'w env =
  FindActiveComponents :: "'w \<Rightarrow> (go_error + ComponentPath list) \<times> 'w"
  worker_Status :: "'w \<Rightarrow> V9Worker \<Rightarrow> (go_error + StatusResponse) \<times> 'w"
  activator_Activate :: "'w \<Rightarrow> ComponentID \<Rightarrow> V9Worker \<Rightarrow> (go_error + string) \<times> 'w"
  activator_Deactivate :: "'w \<Rightarrow> ComponentID \<Rightarrow> V9Worker \<Rightarrow> go_error option \<times> 'w"
  rand_source :: "'w \<Rightarrow> nat \<times> 'w"

text \<open>
  Every call to a collaborator and every lookup in the version index \<open>pathHashes\<close> is
  written to a transcript, with its arguments and its result, in the order of execution.
\<close>

datatype event =
    EvFindActive "go_error + ComponentPath list"
  | EvStatus V9Worker "go_error + StatusResponse"
  | EvActivate ComponentID V9Worker "go_error + string"
  | EvDeactivate ComponentID V9Worker "go_error option"
  | EvIntn nat "nat option"
  | EvReadHash ComponentPath "string option"

record 'w ActionManager =
  workers :: "V9Worker list"
  pathHashes :: "ComponentPath \<rightharpoonup> string"
  pathHashUpdater :: "ComponentID chan"
  dirtyStateNotifier :: "unit chan"
  world :: 'w
  trace :: "event list"

text \<open>What a function of the manager does: return \<open>nil\<close>, return an error, or panic.\<close>

datatype outcome = Ok | Err go_error | Panic

definition NewActionManager :: "V9Worker list \<Rightarrow> 'w \<Rightarrow> 'w ActionManager" where
  "NewActionManager ws \<sigma> =
     \<lparr>workers = ws,
      pathHashes = Map.empty,
      pathHashUpdater = make_chan updaterChanSize,
      dirtyStateNotifier = make_chan 1,
      world = \<sigma>,
      trace = []\<rparr>"

text \<open>The \<open>select\<close> with a \<open>default\<close> branch: send if that does not block, else do nothing.\<close>

definition NotifyComponentStateChanged :: "'w ActionManager \<Rightarrow> 'w ActionManager" where
  "NotifyComponentStateChanged mgr =
     (case chan_send (dirtyStateNotifier mgr) () of
        Some c \<Rightarrow> mgr\<lparr>dirtyStateNotifier := c\<rparr>
      | None \<Rightarrow> mgr)"

subsection \<open>The primitive steps\<close>

definition call_FindActiveComponents ::
  "'w env \<Rightarrow> 'w ActionManager \<Rightarrow> (go_error + ComponentPath list) \<times> 'w ActionManager" where
  "call_FindActiveComponents env mgr =
     (case FindActiveComponents env (world mgr) of
        (r, \<sigma>) \<Rightarrow> (r, mgr\<lparr>world := \<sigma>, trace := trace mgr @ [EvFindActive r]\<rparr>))"

definition call_Status ::
  "'w env \<Rightarrow> 'w ActionManager \<Rightarrow> V9Worker \<Rightarrow> (go_error + StatusResponse) \<times> 'w ActionManager" where
  "call_Status env mgr w =
     (case worker_Status env (world mgr) w of
        (r, \<sigma>) \<Rightarrow> (r, mgr\<lparr>world := \<sigma>, trace := trace mgr @ [EvStatus w r]\<rparr>))"

definition call_Activate ::
  "'w env \<Rightarrow> 'w ActionManager \<Rightarrow> ComponentID \<Rightarrow> V9Worker \<Rightarrow> (go_error + string) \<times> 'w ActionManager" where
  "call_Activate env mgr compID w =
     (case activator_Activate env (world mgr) compID w of
        (r, \<sigma>) \<Rightarrow> (r, mgr\<lparr>world := \<sigma>, trace := trace mgr @ [EvActivate compID w r]\<rparr>))"

definition call_Deactivate ::
  "'w env \<Rightarrow> 'w ActionManager \<Rightarrow> ComponentID \<Rightarrow> V9Worker \<Rightarrow> go_error option \<times> 'w ActionManager" where
  "call_Deactivate env mgr compID w =
     (case activator_Deactivate env (world mgr) compID w of
        (r, \<sigma>) \<Rightarrow> (r, mgr\<lparr>world := \<sigma>, trace := trace mgr @ [EvDeactivate compID w r]\<rparr>))"

text \<open>\<open>rand.Intn n\<close> panics when \<open>n \<le> 0\<close> and yields a number below \<open>n\<close> otherwise.\<close>

definition rand_Intn :: "'w env \<Rightarrow> 'w ActionManager \<Rightarrow> nat \<Rightarrow> nat option \<times> 'w ActionManager" where
  "rand_Intn env mgr n =
     (if n = 0 then (None, mgr\<lparr>trace := trace mgr @ [EvIntn n None]\<rparr>)
      else case rand_source env (world mgr) of
             (r, \<sigma>) \<Rightarrow> (Some (r mod n),
                        mgr\<lparr>world := \<sigma>, trace := trace mgr @ [EvIntn n (Some (r mod n))]\<rparr>))"

definition read_pathHashes ::
  "'w ActionManager \<Rightarrow> ComponentPath \<Rightarrow> string option \<times> 'w ActionManager" where
  "read_pathHashes mgr p =
     (pathHashes mgr p, mgr\<lparr>trace := trace mgr @ [EvReadHash p (pathHashes mgr p)]\<rparr>)"

definition write_pathHashes :: "'w ActionManager \<Rightarrow> ComponentPath \<Rightarrow> string \<Rightarrow> 'w ActionManager" where
  "write_pathHashes mgr p h =
     mgr\<lparr>pathHashes := (pathHashes mgr)(p \<mapsto> h)\<rparr>"

subsection \<open>\<open>deactivateNonactive\<close>\<close>

fun deactivateNonactive_loop ::
  "'w env \<Rightarrow> 'w ActionManager \<Rightarrow> V9Worker \<Rightarrow> ComponentID list \<Rightarrow> outcome \<times> 'w ActionManager" where
  "deactivateNonactive_loop env mgr w [] = (Ok, mgr)"
| "deactivateNonactive_loop env mgr w (incorrectlyRunning # rest) =
     (case call_Deactivate env mgr incorrectlyRunning w of
        (Some err, mgr1) \<Rightarrow> (Err err, mgr1)
      | (None, mgr1) \<Rightarrow> deactivateNonactive_loop env mgr1 w rest)"

definition deactivateNonactive ::
  "'w env \<Rightarrow> 'w ActionManager \<Rightarrow> V9Worker \<Rightarrow> ComponentPath list \<Rightarrow> outcome \<times> 'w ActionManager" where
  "deactivateNonactive env mgr w active =
     (case call_Status env mgr w of
        (Inl err, mgr1) \<Rightarrow> (Err err, mgr1)
      | (Inr status, mgr1) \<Rightarrow>
          deactivateNonactive_loop env mgr1 w (FindNonactive status active))"

subsection \<open>\<open>activateMissing\<close>\<close>

text \<open>
  The loop over the workers either returns from the function (\<open>Some\<close> of what it
  returns) or runs to its end (\<open>None\<close>).
\<close>

fun activateMissing_scan ::
  "'w env \<Rightarrow> 'w ActionManager \<Rightarrow> ComponentPath \<Rightarrow> V9Worker list \<Rightarrow> outcome option \<times> 'w ActionManager" where
  "activateMissing_scan env mgr path [] = (None, mgr)"
| "activateMissing_scan env mgr path (w # ws) =
     (case call_Status env mgr w of
        (Inl err, mgr1) \<Rightarrow> (Some (Err err), mgr1)
      | (Inr status, mgr1) \<Rightarrow>
          if ContainsPath status path then (Some Ok, mgr1)
          else activateMissing_scan env mgr1 path ws)"

definition activateMissing ::
  "'w env \<Rightarrow> 'w ActionManager \<Rightarrow> ComponentID \<Rightarrow> outcome \<times> 'w ActionManager" where
  "activateMissing env mgr toCheck =
     (let path = \<lparr>User = User toCheck, Repo = Repo toCheck\<rparr> in
      case activateMissing_scan env mgr path (workers mgr) of
        (Some out, mgr1) \<Rightarrow> (out, mgr1)
      | (None, mgr1) \<Rightarrow>
          (case rand_Intn env mgr1 (length (workers mgr1)) of
             (None, mgr2) \<Rightarrow> (Panic, mgr2)
           | (Some i, mgr2) \<Rightarrow>
               (let randomWorker = workers mgr2 ! i in
                case call_Activate env mgr2 toCheck randomWorker of
                  (Inl err, mgr3) \<Rightarrow> (Err err, mgr3)
                | (Inr activatedHash, mgr3) \<Rightarrow>
                    if Hash toCheck = headHashSentinel
                    then (Ok, write_pathHashes mgr3
                                \<lparr>User = User toCheck, Repo = Repo toCheck\<rparr> activatedHash)
                    else (Ok, mgr3))))"

subsection \<open>\<open>ensureSomeWorkerIsRunning\<close>\<close>

text \<open>
  The loop over the workers either returns from the function (\<open>Inl\<close> of what it
  returns) or runs to its end with the workers that run no version of the path.
\<close>

fun ensureSomeWorkerIsRunning_scan ::
  "'w env \<Rightarrow> 'w ActionManager \<Rightarrow> ComponentID \<Rightarrow> V9Worker list \<Rightarrow> V9Worker list
     \<Rightarrow> (outcome + V9Worker list) \<times> 'w ActionManager" where
  "ensureSomeWorkerIsRunning_scan env mgr compID notRunningAnyVersion [] =
     (Inr notRunningAnyVersion, mgr)"
| "ensureSomeWorkerIsRunning_scan env mgr compID notRunningAnyVersion (w # ws) =
     (case call_Status env mgr w of
        (Inl err, mgr1) \<Rightarrow> (Inl (Err err), mgr1)
      | (Inr status, mgr1) \<Rightarrow>
          if list_ex (\<lambda>runningComp. ID runningComp = compID) (ActiveComponents status)
          then (Inl Ok, mgr1)
          else if \<not> ContainsPath status \<lparr>User = User compID, Repo = Repo compID\<rparr>
          then ensureSomeWorkerIsRunning_scan env mgr1 compID (notRunningAnyVersion @ [w]) ws
          else ensureSomeWorkerIsRunning_scan env mgr1 compID notRunningAnyVersion ws)"

text \<open>The choice of the worker to deploy to, with the deactivation that makes room.\<close>

definition ensureSomeWorkerIsRunning_pick ::
  "'w env \<Rightarrow> 'w ActionManager \<Rightarrow> ComponentID \<Rightarrow> V9Worker list
     \<Rightarrow> (outcome + V9Worker) \<times> 'w ActionManager" where
  "ensureSomeWorkerIsRunning_pick env mgr compID notRunningAnyVersion =
     (if length notRunningAnyVersion > 0
      then (case rand_Intn env mgr (length notRunningAnyVersion) of
              (None, mgr1) \<Rightarrow> (Inl Panic, mgr1)
            | (Some i, mgr1) \<Rightarrow> (Inr (notRunningAnyVersion ! i), mgr1))
      else (case rand_Intn env mgr (length (workers mgr)) of
              (None, mgr1) \<Rightarrow> (Inl Panic, mgr1)
            | (Some i, mgr1) \<Rightarrow>
                (let workerToDeployTo = workers mgr1 ! i in
                 case call_Deactivate env mgr1 compID workerToDeployTo of
                   (Some err, mgr2) \<Rightarrow> (Inl (Err err), mgr2)
                 | (None, mgr2) \<Rightarrow> (Inr workerToDeployTo, mgr2))))"

definition ensureSomeWorkerIsRunning ::
  "'w env \<Rightarrow> 'w ActionManager \<Rightarrow> ComponentID \<Rightarrow> outcome \<times> 'w ActionManager" where
  "ensureSomeWorkerIsRunning env mgr compID =
     (let compPath = \<lparr>User = User compID, Repo = Repo compID\<rparr> in
      case ensureSomeWorkerIsRunning_scan env mgr compID [] (workers mgr) of
        (Inl out, mgr1) \<Rightarrow> (out, mgr1)
      | (Inr notRunningAnyVersion, mgr1) \<Rightarrow>
          (case ensureSomeWorkerIsRunning_pick env mgr1 compID notRunningAnyVersion of
             (Inl out, mgr2) \<Rightarrow> (out, mgr2)
           | (Inr workerToDeployTo, mgr2) \<Rightarrow>
               (case call_Activate env mgr2 compID workerToDeployTo of
                  (Inl err, mgr3) \<Rightarrow> (Err err, mgr3)
                | (Inr deployedHash, mgr3) \<Rightarrow>
                    if Hash compID = headHashSentinel
                    then (Ok, write_pathHashes mgr3 compPath deployedHash)
                    else (Ok, mgr3))))"

subsection \<open>\<open>deactivateIfHashDiffers\<close>\<close>

fun deactivateIfHashDiffers_loop ::
  "'w env \<Rightarrow> 'w ActionManager \<Rightarrow> V9Worker \<Rightarrow> ComponentID \<Rightarrow> ComponentStats list
     \<Rightarrow> outcome \<times> 'w ActionManager" where
  "deactivateIfHashDiffers_loop env mgr w compID [] = (Ok, mgr)"
| "deactivateIfHashDiffers_loop env mgr w compID (runningComp # rest) =
     (if User (ID runningComp) = User compID \<and> Repo (ID runningComp) = Repo compID
         \<and> Hash (ID runningComp) \<noteq> Hash compID
      then (case call_Deactivate env mgr (ID runningComp) w of
              (Some err, mgr1) \<Rightarrow> (Err err, mgr1)
            | (None, mgr1) \<Rightarrow> deactivateIfHashDiffers_loop env mgr1 w compID rest)
      else deactivateIfHashDiffers_loop env mgr w compID rest)"

definition deactivateIfHashDiffers ::
  "'w env \<Rightarrow> 'w ActionManager \<Rightarrow> V9Worker \<Rightarrow> ComponentID \<Rightarrow> outcome \<times> 'w ActionManager" where
  "deactivateIfHashDiffers env mgr w compID =
     (case call_Status env mgr w of
        (Inl err, mgr1) \<Rightarrow> (Err err, mgr1)
      | (Inr status, mgr1) \<Rightarrow>
          deactivateIfHashDiffers_loop env mgr1 w compID (ActiveComponents status))"

subsection \<open>\<open>HandleDirtyState\<close>: one pass in four phases\<close>

text \<open>
  The pass runs with the mutex of the version index held, so nothing but the pass itself
  touches \<open>pathHashes\<close> while it runs; the model is sequential accordingly.
\<close>

fun phase1_loop ::
  "'w env \<Rightarrow> 'w ActionManager \<Rightarrow> ComponentPath list \<Rightarrow> V9Worker list \<Rightarrow> outcome \<times> 'w ActionManager" where
  "phase1_loop env mgr active [] = (Ok, mgr)"
| "phase1_loop env mgr active (w # ws) =
     (case deactivateNonactive env mgr w active of
        (out, mgr1) \<Rightarrow> if out \<noteq> Ok then (out, mgr1) else phase1_loop env mgr1 active ws)"

fun phase2_loop ::
  "'w env \<Rightarrow> 'w ActionManager \<Rightarrow> ComponentPath list \<Rightarrow> outcome \<times> 'w ActionManager" where
  "phase2_loop env mgr [] = (Ok, mgr)"
| "phase2_loop env mgr (activeComp # rest) =
     (case read_pathHashes mgr activeComp of
        (lookup, mgr0) \<Rightarrow>
          (let hashToDeploy = (case lookup of Some mapHash \<Rightarrow> mapHash | None \<Rightarrow> headHashSentinel) in
           case activateMissing env mgr0
                  \<lparr>User = User activeComp, Repo = Repo activeComp, Hash = hashToDeploy\<rparr> of
             (out, mgr1) \<Rightarrow> if out \<noteq> Ok then (out, mgr1) else phase2_loop env mgr1 rest))"

fun phase3_loop ::
  "'w env \<Rightarrow> 'w ActionManager \<Rightarrow> ComponentPath list \<Rightarrow> outcome \<times> 'w ActionManager" where
  "phase3_loop env mgr [] = (Ok, mgr)"
| "phase3_loop env mgr (activeComp # rest) =
     (case read_pathHashes mgr activeComp of
        (Some correctHash, mgr0) \<Rightarrow>
          (case ensureSomeWorkerIsRunning env mgr0
                  \<lparr>User = User activeComp, Repo = Repo activeComp, Hash = correctHash\<rparr> of
             (out, mgr1) \<Rightarrow> if out \<noteq> Ok then (out, mgr1) else phase3_loop env mgr1 rest)
      | (None, mgr0) \<Rightarrow> phase3_loop env mgr0 rest)"

fun phase4_workers_loop ::
  "'w env \<Rightarrow> 'w ActionManager \<Rightarrow> ComponentID \<Rightarrow> V9Worker list \<Rightarrow> outcome \<times> 'w ActionManager" where
  "phase4_workers_loop env mgr correctCompID [] = (Ok, mgr)"
| "phase4_workers_loop env mgr correctCompID (w # ws) =
     (case deactivateIfHashDiffers env mgr w correctCompID of
        (out, mgr1) \<Rightarrow>
          if out \<noteq> Ok then (out, mgr1) else phase4_workers_loop env mgr1 correctCompID ws)"

fun phase4_loop ::
  "'w env \<Rightarrow> 'w ActionManager \<Rightarrow> ComponentPath list \<Rightarrow> outcome \<times> 'w ActionManager" where
  "phase4_loop env mgr [] = (Ok, mgr)"
| "phase4_loop env mgr (activeComp # rest) =
     (case read_pathHashes mgr activeComp of
        (None, mgr0) \<Rightarrow> phase4_loop env mgr0 rest
      | (Some correctHash, mgr0) \<Rightarrow>
          (case phase4_workers_loop env mgr0
                  \<lparr>User = User activeComp, Repo = Repo activeComp, Hash = correctHash\<rparr>
                  (workers mgr0) of
             (out, mgr1) \<Rightarrow> if out \<noteq> Ok then (out, mgr1) else phase4_loop env mgr1 rest))"

definition HandleDirtyState :: "'w env \<Rightarrow> 'w ActionManager \<Rightarrow> outcome \<times> 'w ActionManager" where
  "HandleDirtyState env mgr =
     (case call_FindActiveComponents env mgr of
        (Inl err, mgr0) \<Rightarrow> (Err err, mgr0)
      | (Inr active, mgr0) \<Rightarrow>
          (case phase1_loop env mgr0 active (workers mgr0) of
             (out1, mgr1) \<Rightarrow>
               if out1 \<noteq> Ok then (out1, mgr1)
               else (case phase2_loop env mgr1 active of
                       (out2, mgr2) \<Rightarrow>
                         if out2 \<noteq> Ok then (out2, mgr2)
                         else (case phase3_loop env mgr2 active of
                                 (out3, mgr3) \<Rightarrow>
                                   if out3 \<noteq> Ok then (out3, mgr3)
                                   else phase4_loop env mgr3 active))))"

section \<open>Notions used to state the properties\<close>

subsection \<open>Reading a transcript\<close>

text \<open>The error a call came back with, if any.  Only calls to collaborators can fail.\<close>

fun failure :: "event \<Rightarrow> go_error option" where
  "failure (EvFindActive r) = (case r of Inl e \<Rightarrow> Some e | Inr _ \<Rightarrow> None)"
| "failure (EvStatus w r) = (case r of Inl e \<Rightarrow> Some e | Inr _ \<Rightarrow> None)"
| "failure (EvActivate c w r) = (case r of Inl e \<Rightarrow> Some e | Inr _ \<Rightarrow> None)"
| "failure (EvDeactivate c w r) = r"
| "failure (EvIntn n r) = None"
| "failure (EvReadHash p r) = None"

definition no_failure :: "event list \<Rightarrow> bool" where
  "no_failure evs = list_all (\<lambda>ev. failure ev = None) evs"

text \<open>
  A transcript short-circuits into \<open>out\<close> when its first failed call is its last event
  and \<open>out\<close> is the error of that call, and \<open>out\<close> is no error when no call failed.
\<close>

fun short_circuits :: "outcome \<Rightarrow> event list \<Rightarrow> bool" where
  "short_circuits out [] = (case out of Err e \<Rightarrow> False | _ \<Rightarrow> True)"
| "short_circuits out (ev # evs) =
     (case failure ev of
        Some e \<Rightarrow> evs = [] \<and> out = Err e
      | None \<Rightarrow> short_circuits out evs)"

text \<open>The commands of a transcript: the calls that ask a worker to change what it runs.\<close>

fun is_command :: "event \<Rightarrow> bool" where
  "is_command (EvActivate c w r) = True"
| "is_command (EvDeactivate c w r) = True"
| "is_command _ = False"

subsection \<open>The dirty signal\<close>

definition raised :: "'w ActionManager \<Rightarrow> bool" where
  "raised mgr = (buffer (dirtyStateNotifier mgr) \<noteq> [])"

text \<open>The signal as \<open>NewActionManager\<close> makes it: one slot, holding at most one value.\<close>

definition single_slot :: "'w ActionManager \<Rightarrow> bool" where
  "single_slot mgr =
     (capacity (dirtyStateNotifier mgr) = 1 \<and> length (buffer (dirtyStateNotifier mgr)) \<le> 1)"

subsection \<open>A scripted fleet for examples\<close>

text \<open>
  A worker's report with its telemetry at zero, and collaborators that follow a script:
  the desired paths are \<open>active\<close>; the world counts the \<open>Status\<close> calls answered so far
  and \<open>reports n w\<close> is what worker \<open>w\<close> answers to call number \<open>n\<close> (an error, or the
  components it runs); the activator resolves \<open>HEAD\<close> to \<open>resolved\<close> and succeeds, as
  does every deactivation; the random source always yields \<open>pick\<close>.
\<close>

definition stats_of :: "ComponentID \<Rightarrow> ComponentStats" where
  "stats_of compID =
     \<lparr>ID = compID, Color = [], StatWindow = 0, Hits = 0, AvgResponseBytes = 0,
      AvgMsLatency = 0, LatencyPercentiles = []\<rparr>"

definition status_of :: "ComponentID list \<Rightarrow> StatusResponse" where
  "status_of ids =
     \<lparr>CPUUsage = 0, MemoryUsage = 0, NetworkUsage = 0, ActiveComponents = map stats_of ids\<rparr>"

definition scripted_env ::
  "ComponentPath list \<Rightarrow> (nat \<Rightarrow> V9Worker \<Rightarrow> go_error + ComponentID list) \<Rightarrow> string \<Rightarrow> nat
     \<Rightarrow> nat env" where
  "scripted_env active reports resolved pick =
     \<lparr>FindActiveComponents = (\<lambda>\<sigma>. (Inr active, \<sigma>)),
      worker_Status =
        (\<lambda>\<sigma> w. (case reports \<sigma> w of Inl e \<Rightarrow> Inl e | Inr ids \<Rightarrow> Inr (status_of ids), Suc \<sigma>)),
      activator_Activate =
        (\<lambda>\<sigma> compID w.
           (Inr (if Hash compID = headHashSentinel then resolved else Hash compID), \<sigma>)),
      activator_Deactivate = (\<lambda>\<sigma> compID w. (None, \<sigma>)),
      rand_source = (\<lambda>\<sigma>. (pick, \<sigma>))\<rparr>"

definition W1 :: V9Worker where
  "W1 = \<lparr>URL = ''w1''\<rparr>"

definition W2 :: V9Worker where
  "W2 = \<lparr>URL = ''w2''\<rparr>"

definition svc :: ComponentPath where
  "svc = \<lparr>User = ''a'', Repo = ''x''\<rparr>"

definition svc_at :: "string \<Rightarrow> ComponentID" where
  "svc_at h = \<lparr>User = ''a'', Repo = ''x'', Hash = h\<rparr>"



text \<open>Two workers, the first running the desired path, the second unreachable.\<close>

definition down_env :: "nat env" where
  "down_env =
     scripted_env [svc]
       (\<lambda>n w. if w = W2 then Inl (GoError ''down'') else Inr [svc_at ''h1'']) ''h9'' 0"

subsection \<open>What a scan of the fleet asks and finds\<close>




fun is_activation :: "event \<Rightarrow> bool" where
  "is_activation (EvActivate c w r) = True"
| "is_activation ev = False"

subsection \<open>Scripted fleets\<close>

text \<open>
  \<open>idle_env\<close>: no worker runs anything.  \<open>rollout_env\<close> with \<open>rollout_mgr\<close>: both
  workers run the path at \<open>h1\<close>, the index announces \<open>h2\<close>, and the random source
  picks the second worker.  \<open>flaky_env\<close>: the first worker runs the path; the second
  is idle at first and unreachable from the third \<open>Status\<close> call of the pass on.
\<close>

definition idle_env :: "nat env" where
  "idle_env = scripted_env [svc] (\<lambda>n w. Inr []) ''h9'' 0"

definition rollout_env :: "nat env" where
  "rollout_env = scripted_env [svc] (\<lambda>n w. Inr [svc_at ''h1'']) ''h9'' 1"

definition rollout_mgr :: "nat ActionManager" where
  "rollout_mgr = (NewActionManager [W1, W2] 0)\<lparr>pathHashes := [svc \<mapsto> ''h2'']\<rparr>"


subsection \<open>The version index along a transcript\<close>

text \<open>
  What a successful activation does to the index: it writes the returned hash at the
  path of the component when the component was asked for at \<open>HEAD\<close>, and nothing
  otherwise.  \<open>replay\<close> applies this along a transcript.
\<close>

fun resolve :: "event \<Rightarrow> (ComponentPath \<rightharpoonup> string) \<Rightarrow> (ComponentPath \<rightharpoonup> string)" where
  "resolve (EvActivate c w (Inr h)) m =
     (if Hash c = headHashSentinel then m(\<lparr>User = User c, Repo = Repo c\<rparr> \<mapsto> h) else m)"
| "resolve ev m = m"

definition replay :: "event list \<Rightarrow> (ComponentPath \<rightharpoonup> string) \<Rightarrow> (ComponentPath \<rightharpoonup> string)" where
  "replay evs m = fold resolve evs m"

text \<open>
  A deactivation is accounted for when its component is not desired or the index has an
  entry for its path.
\<close>

fun deact_known :: "ComponentPath list \<Rightarrow> (ComponentPath \<rightharpoonup> string) \<Rightarrow> event \<Rightarrow> bool" where
  "deact_known active m (EvDeactivate c w r) =
     (\<not> contains active c \<or> m \<lparr>User = User c, Repo = Repo c\<rparr> \<noteq> None)"
| "deact_known active m ev = True"

text \<open>
  A second path, and \<open>late_env\<close>: the only worker is idle for the first two \<open>Status\<close>
  calls of the pass and reports the path at \<open>h1\<close> from then on, while the activator
  resolves \<open>HEAD\<close> to \<open>h2\<close>.
\<close>

definition other :: ComponentPath where
  "other = \<lparr>User = ''b'', Repo = ''y''\<rparr>"

definition late_env :: "nat env" where
  "late_env = scripted_env [svc] (\<lambda>n w. if n < 2 then Inr [] else Inr [svc_at ''h1'']) ''h2'' 0"

subsection \<open>A converged fleet\<close>

text \<open>
  The fleet state is what each worker reports, \<open>snap w\<close>.  It is converged, in the words
  of the specification, when every desired path has an index entry and exactly one
  worker of the fleet runs the path at that hash, and every running component has a
  desired path.
\<close>

definition converged ::
  "ComponentPath list \<Rightarrow> (ComponentPath \<rightharpoonup> string) \<Rightarrow> V9Worker list \<Rightarrow> (V9Worker \<Rightarrow> StatusResponse)
     \<Rightarrow> bool" where
  "converged active versions ws snap =
     (list_all
        (\<lambda>p. case versions p of
               None \<Rightarrow> False
             | Some h \<Rightarrow>
                 length (filter (\<lambda>w. ContainsExactly (snap w)
                                        \<lparr>User = User p, Repo = Repo p, Hash = h\<rparr>) ws) = 1)
        active
      \<and> list_all (\<lambda>w. list_all (\<lambda>rc. contains active (ID rc)) (ActiveComponents (snap w))) ws)"

text \<open>No worker runs a path at a hash other than the one the index has for it.\<close>

definition no_stale ::
  "(ComponentPath \<rightharpoonup> string) \<Rightarrow> V9Worker list \<Rightarrow> (V9Worker \<Rightarrow> StatusResponse) \<Rightarrow> bool" where
  "no_stale versions ws snap =
     list_all
       (\<lambda>w. list_all
              (\<lambda>rc. case versions \<lparr>User = User (ID rc), Repo = Repo (ID rc)\<rparr> of
                      None \<Rightarrow> True
                    | Some h \<Rightarrow> Hash (ID rc) = h)
              (ActiveComponents (snap w)))
       ws"

text \<open>
  The collaborators answer a \<open>Status\<close> call with the fleet state, in every world that
  satisfies \<open>I\<close>, and asking keeps the world within \<open>I\<close>: the fleet does not change by
  being observed.
\<close>

definition answers ::
  "'w env \<Rightarrow> ('w \<Rightarrow> bool) \<Rightarrow> V9Worker list \<Rightarrow> (V9Worker \<Rightarrow> StatusResponse) \<Rightarrow> bool" where
  "answers env I ws snap \<longleftrightarrow>
     (\<forall>\<sigma> w. I \<sigma> \<longrightarrow> w \<in> set ws \<longrightarrow>
        fst (worker_Status env \<sigma> w) = Inr (snap w) \<and> I (snd (worker_Status env \<sigma> w)))"

text \<open>A step that issues no command and leaves the index and the fleet as they are.\<close>

definition quietly :: "('w \<Rightarrow> bool) \<Rightarrow> 'w ActionManager \<Rightarrow> 'w ActionManager \<Rightarrow> bool" where
  "quietly I mgr mgr' \<longleftrightarrow>
     I (world mgr') \<and> pathHashes mgr' = pathHashes mgr \<and> workers mgr' = workers mgr
     \<and> filter is_command (trace mgr') = filter is_command (trace mgr)"

text \<open>
  \<open>stale_env\<close>: the first worker runs the path at \<open>h2\<close>, the second at \<open>h1\<close>.
  \<open>settled_env\<close>: the first worker runs the path at \<open>h2\<close>, the second is idle.
\<close>

definition any_world :: "nat \<Rightarrow> bool" where
  "any_world \<sigma> = True"

definition stale_reports :: "V9Worker \<Rightarrow> ComponentID list" where
  "stale_reports w = (if w = W1 then [svc_at ''h2''] else [svc_at ''h1''])"

definition stale_env :: "nat env" where
  "stale_env = scripted_env [svc] (\<lambda>n w. Inr (stale_reports w)) ''h9'' 0"

definition settled_reports :: "V9Worker \<Rightarrow> ComponentID list" where
  "settled_reports w = (if w = W1 then [svc_at ''h2''] else [])"

definition settled_env :: "nat env" where
  "settled_env = scripted_env [svc] (\<lambda>n w. Inr (settled_reports w)) ''h9'' 0"

section \<open>Properties\<close>

subsection \<open>Lemmas about transcripts\<close>

lemma no_failure_simps [simp]:
  "no_failure []"
  "no_failure (ev # evs) = (failure ev = None \<and> no_failure evs)"
  "no_failure (xs @ ys) = (no_failure xs \<and> no_failure ys)"
  by (auto simp: no_failure_def)

lemma short_circuits_append:
  "no_failure xs \<Longrightarrow> short_circuits out (xs @ ys) = short_circuits out ys"
  by (induction xs) auto

lemma short_circuits_Ok: "short_circuits Ok xs = no_failure xs"
  by (induction xs) (auto split: option.splits)

lemma short_circuits_Panic: "short_circuits Panic xs = no_failure xs"
  by (induction xs) (auto split: option.splits)

lemma short_circuits_at:
  "short_circuits out (pre @ ev # post) \<Longrightarrow> failure ev = Some e \<Longrightarrow> post = [] \<and> out = Err e"
  by (induction pre) (auto split: option.splits)

lemma short_circuits_Err:
  "short_circuits (Err e) evs \<Longrightarrow> \<exists>pre ev. evs = pre @ [ev] \<and> no_failure pre \<and> failure ev = Some e"
proof (induction evs)
  case Nil
  then show ?case by simp
next
  case (Cons x evs)
  show ?case
  proof (cases "failure x")
    case None
    with Cons obtain pre ev where "evs = pre @ [ev]" "no_failure pre" "failure ev = Some e"
      by auto
    with None have "x # evs = (x # pre) @ [ev] \<and> no_failure (x # pre) \<and> failure ev = Some e"
      by simp
    then show ?thesis by blast
  next
    case (Some e')
    with Cons.prems have "x # evs = [] @ [x] \<and> no_failure [] \<and> failure x = Some e"
      by simp
    then show ?thesis by blast
  qed
qed

lemmas prims = call_Status_def call_Activate_def call_Deactivate_def
  call_FindActiveComponents_def rand_Intn_def read_pathHashes_def write_pathHashes_def

lemmas model_defs = HandleDirtyState_def deactivateNonactive_def activateMissing_def
  ensureSomeWorkerIsRunning_def ensureSomeWorkerIsRunning_pick_def deactivateIfHashDiffers_def
  prims FindNonactive_def ContainsPath_def

lemmas fixture_defs = scripted_env_def status_of_def stats_of_def W1_def W2_def svc_def
  svc_at_def NewActionManager_def headHashSentinel_def make_chan_def

lemmas sc_simps = prims short_circuits_Ok short_circuits_Panic short_circuits_append

lemmas sc_splits = prod.splits option.splits sum.splits if_splits

subsection \<open>Every function only appends to the transcript and keeps the fleet\<close>

lemma deactivateNonactive_loop_ext:
  "deactivateNonactive_loop env mgr w cs = (out, mgr') \<Longrightarrow> n \<le> length (trace mgr) \<Longrightarrow>
     workers mgr' = workers mgr \<and> n \<le> length (trace mgr')
     \<and> take n (trace mgr') = take n (trace mgr)"
  by (induction cs arbitrary: mgr) (auto simp: prims split: sc_splits)

lemma deactivateNonactive_ext:
  "deactivateNonactive env mgr w active = (out, mgr') \<Longrightarrow> n \<le> length (trace mgr) \<Longrightarrow>
     workers mgr' = workers mgr \<and> n \<le> length (trace mgr')
     \<and> take n (trace mgr') = take n (trace mgr)"
  unfolding deactivateNonactive_def
  by (auto simp: prims split: sc_splits dest!: deactivateNonactive_loop_ext[where n=n])

lemma activateMissing_scan_ext:
  "activateMissing_scan env mgr path ws = (r, mgr') \<Longrightarrow> n \<le> length (trace mgr) \<Longrightarrow>
     workers mgr' = workers mgr \<and> n \<le> length (trace mgr')
     \<and> take n (trace mgr') = take n (trace mgr)"
  by (induction ws arbitrary: mgr) (auto simp: prims split: sc_splits)

lemma activateMissing_ext:
  "activateMissing env mgr toCheck = (out, mgr') \<Longrightarrow> n \<le> length (trace mgr) \<Longrightarrow>
     workers mgr' = workers mgr \<and> n \<le> length (trace mgr')
     \<and> take n (trace mgr') = take n (trace mgr)"
  unfolding activateMissing_def Let_def
  by (auto simp: prims split: sc_splits dest!: activateMissing_scan_ext[where n=n])

lemma ensureSomeWorkerIsRunning_scan_ext:
  "ensureSomeWorkerIsRunning_scan env mgr compID nr ws = (r, mgr') \<Longrightarrow> n \<le> length (trace mgr) \<Longrightarrow>
     workers mgr' = workers mgr \<and> n \<le> length (trace mgr')
     \<and> take n (trace mgr') = take n (trace mgr)"
  by (induction ws arbitrary: mgr nr) (auto simp: prims split: sc_splits)

lemma ensureSomeWorkerIsRunning_pick_ext:
  "ensureSomeWorkerIsRunning_pick env mgr compID nr = (r, mgr') \<Longrightarrow> n \<le> length (trace mgr) \<Longrightarrow>
     workers mgr' = workers mgr \<and> n \<le> length (trace mgr')
     \<and> take n (trace mgr') = take n (trace mgr)"
  unfolding ensureSomeWorkerIsRunning_pick_def Let_def
  by (auto simp: prims split: sc_splits)

lemma ensureSomeWorkerIsRunning_ext:
  "ensureSomeWorkerIsRunning env mgr compID = (out, mgr') \<Longrightarrow> n \<le> length (trace mgr) \<Longrightarrow>
     workers mgr' = workers mgr \<and> n \<le> length (trace mgr')
     \<and> take n (trace mgr') = take n (trace mgr)"
  unfolding ensureSomeWorkerIsRunning_def Let_def
  by (auto simp: prims split: sc_splits dest!: ensureSomeWorkerIsRunning_scan_ext[where n=n] ensureSomeWorkerIsRunning_pick_ext[where n=n])

lemma deactivateIfHashDiffers_loop_ext:
  "deactivateIfHashDiffers_loop env mgr w compID cs = (out, mgr') \<Longrightarrow> n \<le> length (trace mgr) \<Longrightarrow>
     workers mgr' = workers mgr \<and> n \<le> length (trace mgr')
     \<and> take n (trace mgr') = take n (trace mgr)"
  by (induction cs arbitrary: mgr) (auto simp: prims split: sc_splits)

lemma deactivateIfHashDiffers_ext:
  "deactivateIfHashDiffers env mgr w compID = (out, mgr') \<Longrightarrow> n \<le> length (trace mgr) \<Longrightarrow>
     workers mgr' = workers mgr \<and> n \<le> length (trace mgr')
     \<and> take n (trace mgr') = take n (trace mgr)"
  unfolding deactivateIfHashDiffers_def
  by (auto simp: prims split: sc_splits dest!: deactivateIfHashDiffers_loop_ext[where n=n])

lemma phase1_loop_ext:
  "phase1_loop env mgr active ws = (out, mgr') \<Longrightarrow> n \<le> length (trace mgr) \<Longrightarrow>
     workers mgr' = workers mgr \<and> n \<le> length (trace mgr')
     \<and> take n (trace mgr') = take n (trace mgr)"
  by (induction ws arbitrary: mgr) (auto simp: prims split: sc_splits dest!: deactivateNonactive_ext[where n=n])

lemma phase2_loop_ext:
  "phase2_loop env mgr active = (out, mgr') \<Longrightarrow> n \<le> length (trace mgr) \<Longrightarrow>
     workers mgr' = workers mgr \<and> n \<le> length (trace mgr')
     \<and> take n (trace mgr') = take n (trace mgr)"
  by (induction active arbitrary: mgr) (auto simp: prims split: sc_splits dest!: activateMissing_ext[where n=n])

lemma phase3_loop_ext:
  "phase3_loop env mgr active = (out, mgr') \<Longrightarrow> n \<le> length (trace mgr) \<Longrightarrow>
     workers mgr' = workers mgr \<and> n \<le> length (trace mgr')
     \<and> take n (trace mgr') = take n (trace mgr)"
  by (induction active arbitrary: mgr) (auto simp: prims split: sc_splits dest!: ensureSomeWorkerIsRunning_ext[where n=n])

lemma phase4_workers_loop_ext:
  "phase4_workers_loop env mgr compID ws = (out, mgr') \<Longrightarrow> n \<le> length (trace mgr) \<Longrightarrow>
     workers mgr' = workers mgr \<and> n \<le> length (trace mgr')
     \<and> take n (trace mgr') = take n (trace mgr)"
  by (induction ws arbitrary: mgr) (auto simp: prims split: sc_splits dest!: deactivateIfHashDiffers_ext[where n=n])

lemma phase4_loop_ext:
  "phase4_loop env mgr active = (out, mgr') \<Longrightarrow> n \<le> length (trace mgr) \<Longrightarrow>
     workers mgr' = workers mgr \<and> n \<le> length (trace mgr')
     \<and> take n (trace mgr') = take n (trace mgr)"
  by (induction active arbitrary: mgr) (auto simp: prims split: sc_splits dest!: phase4_workers_loop_ext[where n=n])

lemma HandleDirtyState_ext:
  "HandleDirtyState env mgr = (out, mgr') \<Longrightarrow> n \<le> length (trace mgr) \<Longrightarrow>
     workers mgr' = workers mgr \<and> n \<le> length (trace mgr')
     \<and> take n (trace mgr') = take n (trace mgr)"
  unfolding HandleDirtyState_def
  by (auto simp: prims split: sc_splits dest!: phase1_loop_ext[where n=n] phase2_loop_ext[where n=n] phase3_loop_ext[where n=n] phase4_loop_ext[where n=n])

lemma HandleDirtyState_appends:
  assumes "HandleDirtyState env mgr = (out, mgr')"
  shows "trace mgr' = trace mgr @ drop (length (trace mgr)) (trace mgr')"
proof -
  from HandleDirtyState_ext [OF assms, of "length (trace mgr)"]
  have "take (length (trace mgr)) (trace mgr') = trace mgr"
    by simp
  then show ?thesis
    by (metis append_take_drop_id)
qed

subsection \<open>Every function short-circuits\<close>

lemma deactivateNonactive_loop_sc:
  "deactivateNonactive_loop env mgr w cs = (out, mgr') \<Longrightarrow>
   n \<le> length (trace mgr) \<Longrightarrow> no_failure (drop n (trace mgr)) \<Longrightarrow>
     n \<le> length (trace mgr') \<and> short_circuits out (drop n (trace mgr'))"
  by (induction cs arbitrary: mgr) (auto simp: sc_simps split: sc_splits)

lemma deactivateNonactive_sc:
  "deactivateNonactive env mgr w active = (out, mgr') \<Longrightarrow>
   n \<le> length (trace mgr) \<Longrightarrow> no_failure (drop n (trace mgr)) \<Longrightarrow>
     n \<le> length (trace mgr') \<and> short_circuits out (drop n (trace mgr'))"
  unfolding deactivateNonactive_def
  by (auto simp: sc_simps split: sc_splits dest!: deactivateNonactive_loop_sc[where n=n])

lemma activateMissing_scan_sc:
  "activateMissing_scan env mgr path ws = (r, mgr') \<Longrightarrow>
   n \<le> length (trace mgr) \<Longrightarrow> no_failure (drop n (trace mgr)) \<Longrightarrow>
     n \<le> length (trace mgr') \<and> (case r of Some out \<Rightarrow> short_circuits out (drop n (trace mgr'))
                  | None \<Rightarrow> no_failure (drop n (trace mgr')))"
  by (induction ws arbitrary: mgr) (auto simp: sc_simps split: sc_splits)

lemma activateMissing_sc:
  "activateMissing env mgr toCheck = (out, mgr') \<Longrightarrow>
   n \<le> length (trace mgr) \<Longrightarrow> no_failure (drop n (trace mgr)) \<Longrightarrow>
     n \<le> length (trace mgr') \<and> short_circuits out (drop n (trace mgr'))"
  unfolding activateMissing_def Let_def
  by (auto simp: sc_simps split: sc_splits dest!: activateMissing_scan_sc[where n=n])

lemma ensureSomeWorkerIsRunning_scan_sc:
  "ensureSomeWorkerIsRunning_scan env mgr compID nr ws = (r, mgr') \<Longrightarrow>
   n \<le> length (trace mgr) \<Longrightarrow> no_failure (drop n (trace mgr)) \<Longrightarrow>
     n \<le> length (trace mgr') \<and> (case r of Inl out \<Rightarrow> short_circuits out (drop n (trace mgr'))
                  | Inr _ \<Rightarrow> no_failure (drop n (trace mgr')))"
  by (induction ws arbitrary: mgr nr) (auto simp: sc_simps split: sc_splits)

lemma ensureSomeWorkerIsRunning_pick_sc:
  "ensureSomeWorkerIsRunning_pick env mgr compID nr = (r, mgr') \<Longrightarrow>
   n \<le> length (trace mgr) \<Longrightarrow> no_failure (drop n (trace mgr)) \<Longrightarrow>
     n \<le> length (trace mgr') \<and> (case r of Inl out \<Rightarrow> short_circuits out (drop n (trace mgr'))
                  | Inr _ \<Rightarrow> no_failure (drop n (trace mgr')))"
  unfolding ensureSomeWorkerIsRunning_pick_def Let_def
  by (auto simp: sc_simps split: sc_splits)

lemma ensureSomeWorkerIsRunning_sc:
  "ensureSomeWorkerIsRunning env mgr compID = (out, mgr') \<Longrightarrow>
   n \<le> length (trace mgr) \<Longrightarrow> no_failure (drop n (trace mgr)) \<Longrightarrow>
     n \<le> length (trace mgr') \<and> short_circuits out (drop n (trace mgr'))"
  unfolding ensureSomeWorkerIsRunning_def Let_def
  by (auto simp: sc_simps split: sc_splits dest!: ensureSomeWorkerIsRunning_scan_sc[where n=n] ensureSomeWorkerIsRunning_pick_sc[where n=n])

lemma deactivateIfHashDiffers_loop_sc:
  "deactivateIfHashDiffers_loop env mgr w compID cs = (out, mgr') \<Longrightarrow>
   n \<le> length (trace mgr) \<Longrightarrow> no_failure (drop n (trace mgr)) \<Longrightarrow>
     n \<le> length (trace mgr') \<and> short_circuits out (drop n (trace mgr'))"
  by (induction cs arbitrary: mgr) (auto simp: sc_simps split: sc_splits)

lemma deactivateIfHashDiffers_sc:
  "deactivateIfHashDiffers env mgr w compID = (out, mgr') \<Longrightarrow>
   n \<le> length (trace mgr) \<Longrightarrow> no_failure (drop n (trace mgr)) \<Longrightarrow>
     n \<le> length (trace mgr') \<and> short_circuits out (drop n (trace mgr'))"
  unfolding deactivateIfHashDiffers_def
  by (auto simp: sc_simps split: sc_splits dest!: deactivateIfHashDiffers_loop_sc[where n=n])

lemma phase1_loop_sc:
  "phase1_loop env mgr active ws = (out, mgr') \<Longrightarrow>
   n \<le> length (trace mgr) \<Longrightarrow> no_failure (drop n (trace mgr)) \<Longrightarrow>
     n \<le> length (trace mgr') \<and> short_circuits out (drop n (trace mgr'))"
  by (induction ws arbitrary: mgr) (auto simp: sc_simps split: sc_splits dest!: deactivateNonactive_sc[where n=n])

lemma phase2_loop_sc:
  "phase2_loop env mgr active = (out, mgr') \<Longrightarrow>
   n \<le> length (trace mgr) \<Longrightarrow> no_failure (drop n (trace mgr)) \<Longrightarrow>
     n \<le> length (trace mgr') \<and> short_circuits out (drop n (trace mgr'))"
  by (induction active arbitrary: mgr) (auto simp: sc_simps split: sc_splits dest!: activateMissing_sc[where n=n])

lemma phase3_loop_sc:
  "phase3_loop env mgr active = (out, mgr') \<Longrightarrow>
   n \<le> length (trace mgr) \<Longrightarrow> no_failure (drop n (trace mgr)) \<Longrightarrow>
     n \<le> length (trace mgr') \<and> short_circuits out (drop n (trace mgr'))"
  by (induction active arbitrary: mgr) (auto simp: sc_simps split: sc_splits dest!: ensureSomeWorkerIsRunning_sc[where n=n])

lemma phase4_workers_loop_sc:
  "phase4_workers_loop env mgr compID ws = (out, mgr') \<Longrightarrow>
   n \<le> length (trace mgr) \<Longrightarrow> no_failure (drop n (trace mgr)) \<Longrightarrow>
     n \<le> length (trace mgr') \<and> short_circuits out (drop n (trace mgr'))"
  by (induction ws arbitrary: mgr) (auto simp: sc_simps split: sc_splits dest!: deactivateIfHashDiffers_sc[where n=n])

lemma phase4_loop_sc:
  "phase4_loop env mgr active = (out, mgr') \<Longrightarrow>
   n \<le> length (trace mgr) \<Longrightarrow> no_failure (drop n (trace mgr)) \<Longrightarrow>
     n \<le> length (trace mgr') \<and> short_circuits out (drop n (trace mgr'))"
  by (induction active arbitrary: mgr) (auto simp: sc_simps split: sc_splits dest!: phase4_workers_loop_sc[where n=n])

lemma HandleDirtyState_sc:
  "HandleDirtyState env mgr = (out, mgr') \<Longrightarrow>
   n \<le> length (trace mgr) \<Longrightarrow> no_failure (drop n (trace mgr)) \<Longrightarrow>
     n \<le> length (trace mgr') \<and> short_circuits out (drop n (trace mgr'))"
  unfolding HandleDirtyState_def
  by (auto simp: sc_simps split: sc_splits dest!: phase1_loop_sc[where n=n] phase2_loop_sc[where n=n] phase3_loop_sc[where n=n] phase4_loop_sc[where n=n])

subsection \<open>Error short-circuit\<close>

text \<open>
  Claim C7.  In every pass, the first call that fails (the desired-state read, a
  \<open>Status\<close>, an \<open>Activate\<close> or a \<open>Deactivate\<close>) is the last event of the pass: no
  call to a collaborator and no lookup in the version index follows it, and the pass
  returns the error of that call.  Conversely a pass returns an error only when its last
  call failed with it.
\<close>

theorem HandleDirtyState_short_circuits:
  assumes "HandleDirtyState env mgr = (out, mgr')"
  shows "\<exists>evs. trace mgr' = trace mgr @ evs
           \<and> (\<forall>pre ev post e. evs = pre @ ev # post \<and> failure ev = Some e
                  \<longrightarrow> post = [] \<and> out = Err e)
           \<and> (\<forall>e. out = Err e \<longrightarrow> (\<exists>pre ev. evs = pre @ [ev] \<and> failure ev = Some e))"
proof -
  define evs where "evs = drop (length (trace mgr)) (trace mgr')"
  have evs: "trace mgr' = trace mgr @ evs"
    unfolding evs_def by (rule HandleDirtyState_appends [OF assms])
  from HandleDirtyState_sc [OF assms, of "length (trace mgr)"]
  have sc: "short_circuits out evs"
    by (simp add: evs_def)
  have "\<forall>pre ev post e. evs = pre @ ev # post \<and> failure ev = Some e \<longrightarrow> post = [] \<and> out = Err e"
    using sc short_circuits_at by blast
  moreover have "\<forall>e. out = Err e \<longrightarrow> (\<exists>pre ev. evs = pre @ [ev] \<and> failure ev = Some e)"
    using sc short_circuits_Err by blast
  ultimately show ?thesis
    using evs by blast
qed


theorem HandleDirtyState_short_circuits_witness:
  "trace (snd (HandleDirtyState down_env (NewActionManager [W1, W2] 0))) =
     [EvFindActive (Inr [svc]), EvStatus W1 (Inr (status_of [svc_at ''h1'']))]
       @ EvStatus W2 (Inl (GoError ''down'')) # []
   \<and> failure (EvStatus W2 (Inl (GoError ''down''))) = Some (GoError ''down'')
   \<and> fst (HandleDirtyState down_env (NewActionManager [W1, W2] 0)) = Err (GoError ''down'')"
  using HandleDirtyState_short_circuits
          [OF surjective_pairing, of down_env "NewActionManager [W1, W2] 0"]
  by (simp add: model_defs fixture_defs down_env_def)

subsection \<open>The dirty signal coalesces\<close>

text \<open>
  Claim C8.  \<open>NotifyComponentStateChanged\<close> never blocks: it is defined on every
  state, taking the \<open>default\<close> branch exactly when the send would block, which is when
  the signal is raised.  Raising a raised signal changes nothing, notifying twice is
  notifying once, and the single slot never holds more than one queued reconciliation.
\<close>

theorem NotifyComponentStateChanged_idempotent:
  assumes "single_slot mgr"
  shows "(raised mgr \<longrightarrow> NotifyComponentStateChanged mgr = mgr)
       \<and> NotifyComponentStateChanged (NotifyComponentStateChanged mgr)
           = NotifyComponentStateChanged mgr
       \<and> raised (NotifyComponentStateChanged mgr)
       \<and> single_slot (NotifyComponentStateChanged mgr)
       \<and> (chan_send (dirtyStateNotifier mgr) () = None \<longleftrightarrow> raised mgr)"
  using assms
  by (cases "buffer (dirtyStateNotifier mgr)")
     (auto simp: NotifyComponentStateChanged_def chan_send_def raised_def single_slot_def)

theorem NotifyComponentStateChanged_idempotent_witness:
  "single_slot (NotifyComponentStateChanged (NewActionManager [W1] (0::nat)))
   \<and> raised (NotifyComponentStateChanged (NewActionManager [W1] (0::nat)))
   \<and> NotifyComponentStateChanged (NotifyComponentStateChanged (NewActionManager [W1] (0::nat)))
       = NotifyComponentStateChanged (NewActionManager [W1] (0::nat))
   \<and> buffer (dirtyStateNotifier
        (NotifyComponentStateChanged (NotifyComponentStateChanged (NewActionManager [W1] (0::nat)))))
       = [()]"
  using NotifyComponentStateChanged_idempotent
          [of "NotifyComponentStateChanged (NewActionManager [W1] (0::nat))"]
  by (simp add: NotifyComponentStateChanged_def chan_send_def raised_def single_slot_def
        NewActionManager_def make_chan_def)

subsection \<open>\<open>Status\<close> and the status code of the reply\<close>




subsection \<open>The empty fleet\<close>

text \<open>
  Claim C10.  With no workers and a non-empty desired set, the pass panics in Phase 2:
  \<open>activateMissing\<close> scans no worker and asks \<open>rand.Intn\<close> for a number below zero
  workers.  The fallback of \<open>ensureSomeWorkerIsRunning\<close> in Phase 3 selects from the
  whole fleet in the same unguarded way and panics on an empty fleet too.  Neither
  returns an error.
\<close>

theorem empty_fleet_panics:
  assumes "workers mgr = []"
  shows "(\<forall>active \<sigma>. FindActiveComponents env (world mgr) = (Inr active, \<sigma>) \<and> active \<noteq> []
            \<longrightarrow> fst (HandleDirtyState env mgr) = Panic
              \<and> last (trace (snd (HandleDirtyState env mgr))) = EvIntn 0 None)
       \<and> activateMissing env mgr toCheck = (Panic, mgr\<lparr>trace := trace mgr @ [EvIntn 0 None]\<rparr>)
       \<and> ensureSomeWorkerIsRunning env mgr compID
           = (Panic, mgr\<lparr>trace := trace mgr @ [EvIntn 0 None]\<rparr>)"
proof -
  have "fst (HandleDirtyState env mgr) = Panic
        \<and> last (trace (snd (HandleDirtyState env mgr))) = EvIntn 0 None"
    if "FindActiveComponents env (world mgr) = (Inr active, \<sigma>)" "active \<noteq> []" for active \<sigma>
    using that assms
    by (cases active) (simp_all add: model_defs Let_def)
  moreover have "activateMissing env mgr toCheck = (Panic, mgr\<lparr>trace := trace mgr @ [EvIntn 0 None]\<rparr>)"
    using assms by (simp add: model_defs)
  moreover have "ensureSomeWorkerIsRunning env mgr compID
           = (Panic, mgr\<lparr>trace := trace mgr @ [EvIntn 0 None]\<rparr>)"
    using assms by (simp add: model_defs)
  ultimately show ?thesis by blast
qed

theorem empty_fleet_panics_witness:
  "workers (NewActionManager [] (0::nat)) = []
   \<and> FindActiveComponents (scripted_env [svc] (\<lambda>n w. Inr []) ''h9'' 0)
        (world (NewActionManager [] (0::nat))) = (Inr [svc], 0)
   \<and> [svc] \<noteq> []
   \<and> fst (HandleDirtyState (scripted_env [svc] (\<lambda>n w. Inr []) ''h9'' 0)
             (NewActionManager [] 0)) = Panic
   \<and> trace (snd (HandleDirtyState (scripted_env [svc] (\<lambda>n w. Inr []) ''h9'' 0)
             (NewActionManager [] 0)))
       = [EvFindActive (Inr [svc]), EvReadHash svc None, EvIntn 0 None]"
  using empty_fleet_panics [of "NewActionManager [] (0::nat)"
          "scripted_env [svc] (\<lambda>n w. Inr []) ''h9'' 0"]
  by (simp add: model_defs fixture_defs)

subsection \<open>Making room in Phase 3\<close>

text \<open>
  Claim C1, at the rollout with no free worker: both workers run the path at the old
  hash \<open>h1\<close> and the index says \<open>h2\<close>.  \<open>ensureSomeWorkerIsRunning\<close> picks its target
  from the whole fleet and deactivates before it activates, but the component it
  deactivates is the one it was called with, the path at the correct hash \<open>h2\<close>, which
  the target does not run; the target's running version \<open>h1\<close> is left to Phase 4.
\<close>

theorem ensureSomeWorkerIsRunning_deactivates_correct_hash:
  "trace (snd (ensureSomeWorkerIsRunning rollout_env rollout_mgr (svc_at ''h2''))) =
     [EvStatus W1 (Inr (status_of [svc_at ''h1''])),
      EvStatus W2 (Inr (status_of [svc_at ''h1''])),
      EvIntn 2 (Some 1),
      EvDeactivate (svc_at ''h2'') W2 None,
      EvActivate (svc_at ''h2'') W2 (Inr ''h2'')]
   \<and> filter is_command (trace (snd (HandleDirtyState rollout_env rollout_mgr))) =
     [EvDeactivate (svc_at ''h2'') W2 None,
      EvActivate (svc_at ''h2'') W2 (Inr ''h2''),
      EvDeactivate (svc_at ''h1'') W1 None,
      EvDeactivate (svc_at ''h1'') W2 None]"
  by (simp add: model_defs fixture_defs rollout_env_def rollout_mgr_def Let_def)

subsection \<open>The scan of Phase 2\<close>










lemma appends: "take (length t) t' = t \<Longrightarrow> t' = t @ drop (length t) t'"
  by (metis append_take_drop_id)





lemma not_activation_mem:
  "list_all (\<lambda>ev. \<not> is_activation ev) evs \<Longrightarrow> EvActivate c w r \<notin> set evs"
  by (auto simp: list_all_iff)

lemma activateMissing_scan_quiet:
  "activateMissing_scan env mgr path ws = (r, mgr') \<Longrightarrow>
   n \<le> length (trace mgr) \<Longrightarrow> list_all (\<lambda>ev. \<not> is_activation ev) (drop n (trace mgr)) \<Longrightarrow>
     n \<le> length (trace mgr') \<and> pathHashes mgr' = pathHashes mgr
     \<and> list_all (\<lambda>ev. \<not> is_activation ev) (drop n (trace mgr'))"
  by (induction ws arbitrary: mgr) (auto simp: prims split: sc_splits)

lemma ensureSomeWorkerIsRunning_scan_quiet:
  "ensureSomeWorkerIsRunning_scan env mgr compID nr ws = (r, mgr') \<Longrightarrow>
   n \<le> length (trace mgr) \<Longrightarrow> list_all (\<lambda>ev. \<not> is_activation ev) (drop n (trace mgr)) \<Longrightarrow>
     n \<le> length (trace mgr') \<and> pathHashes mgr' = pathHashes mgr
     \<and> list_all (\<lambda>ev. \<not> is_activation ev) (drop n (trace mgr'))"
  by (induction ws arbitrary: mgr nr) (auto simp: prims split: sc_splits)

lemma ensureSomeWorkerIsRunning_pick_quiet:
  "ensureSomeWorkerIsRunning_pick env mgr compID nr = (r, mgr') \<Longrightarrow>
   n \<le> length (trace mgr) \<Longrightarrow> list_all (\<lambda>ev. \<not> is_activation ev) (drop n (trace mgr)) \<Longrightarrow>
     n \<le> length (trace mgr') \<and> pathHashes mgr' = pathHashes mgr
     \<and> list_all (\<lambda>ev. \<not> is_activation ev) (drop n (trace mgr'))"
  unfolding ensureSomeWorkerIsRunning_pick_def Let_def
  by (auto simp: prims split: sc_splits)

lemma activateMissing_resolves:
  "activateMissing env mgr toCheck = (out, mgr') \<Longrightarrow> n = length (trace mgr) \<Longrightarrow>
     (\<forall>w h. EvActivate toCheck w (Inr h) \<in> set (drop n (trace mgr')) \<longrightarrow>
        pathHashes mgr' =
          (if Hash toCheck = headHashSentinel
           then (pathHashes mgr)(\<lparr>User = User toCheck, Repo = Repo toCheck\<rparr> \<mapsto> h)
           else pathHashes mgr))
     \<and> ((\<forall>w h. EvActivate toCheck w (Inr h) \<notin> set (drop n (trace mgr'))) \<longrightarrow>
          pathHashes mgr' = pathHashes mgr)"
  unfolding activateMissing_def Let_def
  by (auto simp: prims not_activation_mem split: sc_splits
      dest!: activateMissing_scan_quiet[where n=n])

lemma ensureSomeWorkerIsRunning_resolves:
  "ensureSomeWorkerIsRunning env mgr toCheck = (out, mgr') \<Longrightarrow> n = length (trace mgr) \<Longrightarrow>
     (\<forall>w h. EvActivate toCheck w (Inr h) \<in> set (drop n (trace mgr')) \<longrightarrow>
        pathHashes mgr' =
          (if Hash toCheck = headHashSentinel
           then (pathHashes mgr)(\<lparr>User = User toCheck, Repo = Repo toCheck\<rparr> \<mapsto> h)
           else pathHashes mgr))
     \<and> ((\<forall>w h. EvActivate toCheck w (Inr h) \<notin> set (drop n (trace mgr'))) \<longrightarrow>
          pathHashes mgr' = pathHashes mgr)"
  unfolding ensureSomeWorkerIsRunning_def Let_def
  by (auto simp: prims not_activation_mem split: sc_splits
      dest!: ensureSomeWorkerIsRunning_scan_quiet[where n=n]
             ensureSomeWorkerIsRunning_pick_quiet[where n=n])

subsection \<open>Resolving \<open>HEAD\<close>\<close>

text \<open>
  Claim C6.  When \<open>activateMissing\<close> (Phase 2) or \<open>ensureSomeWorkerIsRunning\<close> (Phase 3)
  activates its component and the activator returns a hash, then afterwards the version
  index maps the component's path to that hash if the component's hash was the sentinel
  \<open>HEAD\<close>, and the index is unchanged if it was any other hash.  Without a successful
  activation the index is unchanged as well.
\<close>

theorem HEAD_resolution:
  assumes "f = activateMissing \<or> f = ensureSomeWorkerIsRunning"
      and "f env mgr compID = (out, mgr')"
  shows "\<exists>evs. trace mgr' = trace mgr @ evs
           \<and> (\<forall>w h. EvActivate compID w (Inr h) \<in> set evs \<longrightarrow>
                 pathHashes mgr' =
                   (if Hash compID = headHashSentinel
                    then (pathHashes mgr)(\<lparr>User = User compID, Repo = Repo compID\<rparr> \<mapsto> h)
                    else pathHashes mgr))
           \<and> ((\<forall>w h. EvActivate compID w (Inr h) \<notin> set evs) \<longrightarrow>
                 pathHashes mgr' = pathHashes mgr)"
proof -
  define evs where "evs = drop (length (trace mgr)) (trace mgr')"
  from assms have "take (length (trace mgr)) (trace mgr') = trace mgr"
    using activateMissing_ext [of env mgr compID out mgr' "length (trace mgr)"]
          ensureSomeWorkerIsRunning_ext [of env mgr compID out mgr' "length (trace mgr)"]
    by auto
  then have "trace mgr' = trace mgr @ evs"
    unfolding evs_def by (rule appends)
  moreover from assms have
    "(\<forall>w h. EvActivate compID w (Inr h) \<in> set evs \<longrightarrow>
        pathHashes mgr' =
          (if Hash compID = headHashSentinel
           then (pathHashes mgr)(\<lparr>User = User compID, Repo = Repo compID\<rparr> \<mapsto> h)
           else pathHashes mgr))
     \<and> ((\<forall>w h. EvActivate compID w (Inr h) \<notin> set evs) \<longrightarrow> pathHashes mgr' = pathHashes mgr)"
    unfolding evs_def
    using activateMissing_resolves [of env mgr compID out mgr' "length (trace mgr)"]
          ensureSomeWorkerIsRunning_resolves [of env mgr compID out mgr' "length (trace mgr)"]
    by blast
  ultimately show ?thesis
    by blast
qed

theorem HEAD_resolution_witness:
  "EvActivate (svc_at ''HEAD'') W1 (Inr ''h9'')
     \<in> set (trace (snd (activateMissing idle_env (NewActionManager [W1, W2] 0) (svc_at ''HEAD''))))
   \<and> Hash (svc_at ''HEAD'') = headHashSentinel
   \<and> pathHashes (snd (activateMissing idle_env (NewActionManager [W1, W2] 0) (svc_at ''HEAD'')))
       = (pathHashes (NewActionManager [W1, W2] (0::nat)))(svc \<mapsto> ''h9'')
   \<and> pathHashes (snd (ensureSomeWorkerIsRunning idle_env (NewActionManager [W1, W2] 0)
                        (svc_at ''HEAD''))) svc = Some ''h9''
   \<and> pathHashes (snd (ensureSomeWorkerIsRunning idle_env (NewActionManager [W1, W2] 0)
                        (svc_at ''h2''))) svc = None"
  using HEAD_resolution [OF disjI1 [OF refl] surjective_pairing,
          of idle_env "NewActionManager [W1, W2] 0" "svc_at ''HEAD''"]
  by (simp add: model_defs fixture_defs idle_env_def Let_def)

subsection \<open>The index after a call is the replay of its transcript\<close>

lemma replay_simps [simp]:
  "replay [] m = m"
  "replay (ev # evs) m = replay evs (resolve ev m)"
  "replay (xs @ ys) m = replay ys (replay xs m)"
  by (simp_all add: replay_def)

lemma deactivateNonactive_loop_replay:
  "deactivateNonactive_loop env mgr w cs = (out, mgr') \<Longrightarrow>
   n \<le> length (trace mgr) \<Longrightarrow> pathHashes mgr = replay (drop n (trace mgr)) m0 \<Longrightarrow>
     n \<le> length (trace mgr') \<and> pathHashes mgr' = replay (drop n (trace mgr')) m0"
  by (induction cs arbitrary: mgr) (auto simp: prims split: sc_splits)

lemma deactivateNonactive_replay:
  "deactivateNonactive env mgr w active = (out, mgr') \<Longrightarrow>
   n \<le> length (trace mgr) \<Longrightarrow> pathHashes mgr = replay (drop n (trace mgr)) m0 \<Longrightarrow>
     n \<le> length (trace mgr') \<and> pathHashes mgr' = replay (drop n (trace mgr')) m0"
  unfolding deactivateNonactive_def
  by (auto simp: prims split: sc_splits dest!: deactivateNonactive_loop_replay[where n=n and ?m0.0=m0])

lemma activateMissing_scan_replay:
  "activateMissing_scan env mgr path ws = (r, mgr') \<Longrightarrow>
   n \<le> length (trace mgr) \<Longrightarrow> pathHashes mgr = replay (drop n (trace mgr)) m0 \<Longrightarrow>
     n \<le> length (trace mgr') \<and> pathHashes mgr' = replay (drop n (trace mgr')) m0"
  by (induction ws arbitrary: mgr) (auto simp: prims split: sc_splits)

lemma activateMissing_replay:
  "activateMissing env mgr toCheck = (out, mgr') \<Longrightarrow>
   n \<le> length (trace mgr) \<Longrightarrow> pathHashes mgr = replay (drop n (trace mgr)) m0 \<Longrightarrow>
     n \<le> length (trace mgr') \<and> pathHashes mgr' = replay (drop n (trace mgr')) m0"
  unfolding activateMissing_def Let_def
  by (auto simp: prims split: sc_splits dest!: activateMissing_scan_replay[where n=n and ?m0.0=m0])

lemma ensureSomeWorkerIsRunning_scan_replay:
  "ensureSomeWorkerIsRunning_scan env mgr compID nr ws = (r, mgr') \<Longrightarrow>
   n \<le> length (trace mgr) \<Longrightarrow> pathHashes mgr = replay (drop n (trace mgr)) m0 \<Longrightarrow>
     n \<le> length (trace mgr') \<and> pathHashes mgr' = replay (drop n (trace mgr')) m0"
  by (induction ws arbitrary: mgr nr) (auto simp: prims split: sc_splits)

lemma ensureSomeWorkerIsRunning_pick_replay:
  "ensureSomeWorkerIsRunning_pick env mgr compID nr = (r, mgr') \<Longrightarrow>
   n \<le> length (trace mgr) \<Longrightarrow> pathHashes mgr = replay (drop n (trace mgr)) m0 \<Longrightarrow>
     n \<le> length (trace mgr') \<and> pathHashes mgr' = replay (drop n (trace mgr')) m0"
  unfolding ensureSomeWorkerIsRunning_pick_def Let_def
  by (auto simp: prims split: sc_splits)

lemma ensureSomeWorkerIsRunning_replay:
  "ensureSomeWorkerIsRunning env mgr compID = (out, mgr') \<Longrightarrow>
   n \<le> length (trace mgr) \<Longrightarrow> pathHashes mgr = replay (drop n (trace mgr)) m0 \<Longrightarrow>
     n \<le> length (trace mgr') \<and> pathHashes mgr' = replay (drop n (trace mgr')) m0"
  unfolding ensureSomeWorkerIsRunning_def Let_def
  by (auto simp: prims split: sc_splits dest!: ensureSomeWorkerIsRunning_scan_replay[where n=n and ?m0.0=m0] ensureSomeWorkerIsRunning_pick_replay[where n=n and ?m0.0=m0])

lemma deactivateIfHashDiffers_loop_replay:
  "deactivateIfHashDiffers_loop env mgr w compID cs = (out, mgr') \<Longrightarrow>
   n \<le> length (trace mgr) \<Longrightarrow> pathHashes mgr = replay (drop n (trace mgr)) m0 \<Longrightarrow>
     n \<le> length (trace mgr') \<and> pathHashes mgr' = replay (drop n (trace mgr')) m0"
  by (induction cs arbitrary: mgr) (auto simp: prims split: sc_splits)

lemma deactivateIfHashDiffers_replay:
  "deactivateIfHashDiffers env mgr w compID = (out, mgr') \<Longrightarrow>
   n \<le> length (trace mgr) \<Longrightarrow> pathHashes mgr = replay (drop n (trace mgr)) m0 \<Longrightarrow>
     n \<le> length (trace mgr') \<and> pathHashes mgr' = replay (drop n (trace mgr')) m0"
  unfolding deactivateIfHashDiffers_def
  by (auto simp: prims split: sc_splits dest!: deactivateIfHashDiffers_loop_replay[where n=n and ?m0.0=m0])

lemma phase1_loop_replay:
  "phase1_loop env mgr active ws = (out, mgr') \<Longrightarrow>
   n \<le> length (trace mgr) \<Longrightarrow> pathHashes mgr = replay (drop n (trace mgr)) m0 \<Longrightarrow>
     n \<le> length (trace mgr') \<and> pathHashes mgr' = replay (drop n (trace mgr')) m0"
  by (induction ws arbitrary: mgr) (auto simp: prims split: sc_splits dest!: deactivateNonactive_replay[where n=n and ?m0.0=m0])

lemma phase2_loop_replay:
  "phase2_loop env mgr active = (out, mgr') \<Longrightarrow>
   n \<le> length (trace mgr) \<Longrightarrow> pathHashes mgr = replay (drop n (trace mgr)) m0 \<Longrightarrow>
     n \<le> length (trace mgr') \<and> pathHashes mgr' = replay (drop n (trace mgr')) m0"
  by (induction active arbitrary: mgr) (auto simp: prims split: sc_splits dest!: activateMissing_replay[where n=n and ?m0.0=m0])

lemma phase3_loop_replay:
  "phase3_loop env mgr active = (out, mgr') \<Longrightarrow>
   n \<le> length (trace mgr) \<Longrightarrow> pathHashes mgr = replay (drop n (trace mgr)) m0 \<Longrightarrow>
     n \<le> length (trace mgr') \<and> pathHashes mgr' = replay (drop n (trace mgr')) m0"
  by (induction active arbitrary: mgr) (auto simp: prims split: sc_splits dest!: ensureSomeWorkerIsRunning_replay[where n=n and ?m0.0=m0])

lemma phase4_workers_loop_replay:
  "phase4_workers_loop env mgr compID ws = (out, mgr') \<Longrightarrow>
   n \<le> length (trace mgr) \<Longrightarrow> pathHashes mgr = replay (drop n (trace mgr)) m0 \<Longrightarrow>
     n \<le> length (trace mgr') \<and> pathHashes mgr' = replay (drop n (trace mgr')) m0"
  by (induction ws arbitrary: mgr) (auto simp: prims split: sc_splits dest!: deactivateIfHashDiffers_replay[where n=n and ?m0.0=m0])

lemma phase4_loop_replay:
  "phase4_loop env mgr active = (out, mgr') \<Longrightarrow>
   n \<le> length (trace mgr) \<Longrightarrow> pathHashes mgr = replay (drop n (trace mgr)) m0 \<Longrightarrow>
     n \<le> length (trace mgr') \<and> pathHashes mgr' = replay (drop n (trace mgr')) m0"
  by (induction active arbitrary: mgr) (auto simp: prims split: sc_splits dest!: phase4_workers_loop_replay[where n=n and ?m0.0=m0])

lemma HandleDirtyState_replay:
  "HandleDirtyState env mgr = (out, mgr') \<Longrightarrow>
   n \<le> length (trace mgr) \<Longrightarrow> pathHashes mgr = replay (drop n (trace mgr)) m0 \<Longrightarrow>
     n \<le> length (trace mgr') \<and> pathHashes mgr' = replay (drop n (trace mgr')) m0"
  unfolding HandleDirtyState_def
  by (auto simp: prims split: sc_splits dest!: phase1_loop_replay[where n=n and ?m0.0=m0] phase2_loop_replay[where n=n and ?m0.0=m0] phase3_loop_replay[where n=n and ?m0.0=m0] phase4_loop_replay[where n=n and ?m0.0=m0])

lemma resolve_other:
  assumes "\<not> (\<exists>c w h. ev = EvActivate c w (Inr h) \<and> Hash c = headHashSentinel
                   \<and> \<lparr>User = User c, Repo = Repo c\<rparr> = p)"
  shows "resolve ev m p = m p"
proof (cases ev)
  case (EvActivate c w r)
  with assms show ?thesis
    by (cases r) auto
qed simp_all

lemma replay_cases:
  "replay evs m p = m p
   \<or> (\<exists>w h. EvActivate \<lparr>User = User p, Repo = Repo p, Hash = headHashSentinel\<rparr> w (Inr h) \<in> set evs
             \<and> replay evs m p = Some h)"
proof (induction evs rule: rev_induct)
  case Nil
  then show ?case by simp
next
  case (snoc x xs)
  show ?case
  proof (cases "\<exists>c w h. x = EvActivate c w (Inr h) \<and> Hash c = headHashSentinel
                   \<and> \<lparr>User = User c, Repo = Repo c\<rparr> = p")
    case True
    then obtain c w h where x: "x = EvActivate c w (Inr h)" and c: "Hash c = headHashSentinel"
      and p: "\<lparr>User = User c, Repo = Repo c\<rparr> = p"
      by blast
    from c p have "c = \<lparr>User = User p, Repo = Repo p, Hash = headHashSentinel\<rparr>"
      by (cases c) auto
    with x c p show ?thesis
      by auto
  next
    case False
    then have "replay (xs @ [x]) m p = replay xs m p"
      by (simp add: resolve_other)
    with snoc show ?thesis
      by auto
  qed
qed

subsection \<open>Frame of the version index\<close>

text \<open>
  Claim C9.  A pass changes the version index only at paths it activated with the
  sentinel \<open>HEAD\<close>: an entry whose path has no successful \<open>HEAD\<close> activation in the
  pass has the same value (or absence) after the pass as before, and an entry that did
  change holds a hash that the activator returned for a \<open>HEAD\<close> activation of its path.
\<close>

theorem HandleDirtyState_frame:
  assumes "HandleDirtyState env mgr = (out, mgr')"
  shows "\<exists>evs. trace mgr' = trace mgr @ evs
           \<and> (\<forall>p. (\<forall>w h. EvActivate \<lparr>User = User p, Repo = Repo p, Hash = headHashSentinel\<rparr>
                            w (Inr h) \<notin> set evs)
                  \<longrightarrow> pathHashes mgr' p = pathHashes mgr p)
           \<and> (\<forall>p. pathHashes mgr' p \<noteq> pathHashes mgr p
                  \<longrightarrow> (\<exists>w h. EvActivate \<lparr>User = User p, Repo = Repo p, Hash = headHashSentinel\<rparr>
                               w (Inr h) \<in> set evs
                             \<and> pathHashes mgr' p = Some h))"
proof -
  define evs where "evs = drop (length (trace mgr)) (trace mgr')"
  have evs: "trace mgr' = trace mgr @ evs"
    unfolding evs_def by (rule HandleDirtyState_appends [OF assms])
  from HandleDirtyState_replay [OF assms, of "length (trace mgr)" "pathHashes mgr"]
  have "pathHashes mgr' = replay evs (pathHashes mgr)"
    by (simp add: evs_def)
  with replay_cases [of evs "pathHashes mgr"] evs show ?thesis
    by metis
qed

theorem HandleDirtyState_frame_witness:
  "EvActivate \<lparr>User = User svc, Repo = Repo svc, Hash = headHashSentinel\<rparr> W1 (Inr ''h9'')
     \<in> set (trace (snd (HandleDirtyState idle_env
                 ((NewActionManager [W1, W2] 0)\<lparr>pathHashes := [other \<mapsto> ''h0'']\<rparr>))))
   \<and> pathHashes (snd (HandleDirtyState idle_env
                 ((NewActionManager [W1, W2] 0)\<lparr>pathHashes := [other \<mapsto> ''h0'']\<rparr>))) svc
       = Some ''h9''
   \<and> pathHashes (snd (HandleDirtyState idle_env
                 ((NewActionManager [W1, W2] 0)\<lparr>pathHashes := [other \<mapsto> ''h0'']\<rparr>))) other
       = [other \<mapsto> ''h0''] other"
  using HandleDirtyState_frame [OF surjective_pairing, of idle_env
          "(NewActionManager [W1, W2] 0)\<lparr>pathHashes := [other \<mapsto> ''h0'']\<rparr>"]
  by (simp add: model_defs fixture_defs idle_env_def other_def Let_def)

subsection \<open>Every deactivation is accounted for\<close>

lemma ComponentPath_eta [simp]: "\<lparr>User = User a, Repo = Repo a\<rparr> = (a::ComponentPath)"
  by (cases a) simp

lemma deact_known_mono:
  "list_all (deact_known active m) evs \<Longrightarrow> list_all (deact_known active (m(p \<mapsto> h))) evs"
proof (induction evs)
  case Nil
  then show ?case by simp
next
  case (Cons ev evs)
  then show ?case by (cases ev) auto
qed

lemma deactivateNonactive_loop_deact:
  "deactivateNonactive_loop env mgr w cs = (out, mgr') \<Longrightarrow>
   n \<le> length (trace mgr) \<Longrightarrow> list_all (deact_known active (pathHashes mgr)) (drop n (trace mgr)) \<Longrightarrow>
   list_all (\<lambda>c. \<not> contains active c) cs \<Longrightarrow>
     n \<le> length (trace mgr')
     \<and> list_all (deact_known active (pathHashes mgr')) (drop n (trace mgr'))"
  by (induction cs arbitrary: mgr) (auto simp: prims split: sc_splits)

lemma deactivateNonactive_deact:
  "deactivateNonactive env mgr w active = (out, mgr') \<Longrightarrow>
   n \<le> length (trace mgr) \<Longrightarrow> list_all (deact_known active (pathHashes mgr)) (drop n (trace mgr)) \<Longrightarrow>
     n \<le> length (trace mgr')
     \<and> list_all (deact_known active (pathHashes mgr')) (drop n (trace mgr'))"
  unfolding deactivateNonactive_def
  by (auto simp: prims FindNonactive_def list_all_iff split: sc_splits
      dest!: deactivateNonactive_loop_deact[where n=n and active=active])

lemma phase1_loop_deact:
  "phase1_loop env mgr active ws = (out, mgr') \<Longrightarrow>
   n \<le> length (trace mgr) \<Longrightarrow> list_all (deact_known active (pathHashes mgr)) (drop n (trace mgr)) \<Longrightarrow>
     n \<le> length (trace mgr')
     \<and> list_all (deact_known active (pathHashes mgr')) (drop n (trace mgr'))"
  by (induction ws arbitrary: mgr)
     (auto simp: prims split: sc_splits dest!: deactivateNonactive_deact[where n=n])

lemma activateMissing_scan_deact:
  "activateMissing_scan env mgr path ws = (r, mgr') \<Longrightarrow>
   n \<le> length (trace mgr) \<Longrightarrow> list_all (deact_known active (pathHashes mgr)) (drop n (trace mgr)) \<Longrightarrow>
     n \<le> length (trace mgr')
     \<and> list_all (deact_known active (pathHashes mgr')) (drop n (trace mgr'))"
  by (induction ws arbitrary: mgr) (auto simp: prims split: sc_splits)

lemma activateMissing_deact:
  "activateMissing env mgr toCheck = (out, mgr') \<Longrightarrow>
   n \<le> length (trace mgr) \<Longrightarrow> list_all (deact_known active (pathHashes mgr)) (drop n (trace mgr)) \<Longrightarrow>
     n \<le> length (trace mgr')
     \<and> list_all (deact_known active (pathHashes mgr')) (drop n (trace mgr'))"
  unfolding activateMissing_def Let_def
  by (auto simp: prims deact_known_mono split: sc_splits
      dest!: activateMissing_scan_deact[where n=n and active=active])

lemma phase2_loop_deact:
  "phase2_loop env mgr rest = (out, mgr') \<Longrightarrow>
   n \<le> length (trace mgr) \<Longrightarrow> list_all (deact_known active (pathHashes mgr)) (drop n (trace mgr)) \<Longrightarrow>
     n \<le> length (trace mgr')
     \<and> list_all (deact_known active (pathHashes mgr')) (drop n (trace mgr'))"
  by (induction rest arbitrary: mgr)
     (auto simp: prims split: sc_splits dest!: activateMissing_deact[where n=n and active=active])

lemma ensureSomeWorkerIsRunning_scan_deact:
  "ensureSomeWorkerIsRunning_scan env mgr compID nr ws = (r, mgr') \<Longrightarrow>
   n \<le> length (trace mgr) \<Longrightarrow> list_all (deact_known active (pathHashes mgr)) (drop n (trace mgr)) \<Longrightarrow>
   pathHashes mgr \<lparr>User = User compID, Repo = Repo compID\<rparr> \<noteq> None \<Longrightarrow>
     n \<le> length (trace mgr')
     \<and> pathHashes mgr' \<lparr>User = User compID, Repo = Repo compID\<rparr> \<noteq> None
     \<and> list_all (deact_known active (pathHashes mgr')) (drop n (trace mgr'))"
  by (induction ws arbitrary: mgr nr) (auto simp: prims split: sc_splits)

lemma ensureSomeWorkerIsRunning_pick_deact:
  "ensureSomeWorkerIsRunning_pick env mgr compID nr = (r, mgr') \<Longrightarrow>
   n \<le> length (trace mgr) \<Longrightarrow> list_all (deact_known active (pathHashes mgr)) (drop n (trace mgr)) \<Longrightarrow>
   pathHashes mgr \<lparr>User = User compID, Repo = Repo compID\<rparr> \<noteq> None \<Longrightarrow>
     n \<le> length (trace mgr')
     \<and> pathHashes mgr' \<lparr>User = User compID, Repo = Repo compID\<rparr> \<noteq> None
     \<and> list_all (deact_known active (pathHashes mgr')) (drop n (trace mgr'))"
  unfolding ensureSomeWorkerIsRunning_pick_def Let_def
  by (auto simp: prims split: sc_splits)

lemma ensureSomeWorkerIsRunning_deact:
  "ensureSomeWorkerIsRunning env mgr compID = (out, mgr') \<Longrightarrow>
   n \<le> length (trace mgr) \<Longrightarrow> list_all (deact_known active (pathHashes mgr)) (drop n (trace mgr)) \<Longrightarrow>
   pathHashes mgr \<lparr>User = User compID, Repo = Repo compID\<rparr> \<noteq> None \<Longrightarrow>
     n \<le> length (trace mgr')
     \<and> list_all (deact_known active (pathHashes mgr')) (drop n (trace mgr'))"
  unfolding ensureSomeWorkerIsRunning_def Let_def
  by (auto simp: prims deact_known_mono split: sc_splits
      dest!: ensureSomeWorkerIsRunning_scan_deact[where n=n and active=active]
             ensureSomeWorkerIsRunning_pick_deact[where n=n and active=active])

lemma phase3_loop_deact:
  "phase3_loop env mgr rest = (out, mgr') \<Longrightarrow>
   n \<le> length (trace mgr) \<Longrightarrow> list_all (deact_known active (pathHashes mgr)) (drop n (trace mgr)) \<Longrightarrow>
     n \<le> length (trace mgr')
     \<and> list_all (deact_known active (pathHashes mgr')) (drop n (trace mgr'))"
  by (induction rest arbitrary: mgr)
     (auto simp: prims split: sc_splits
       dest!: ensureSomeWorkerIsRunning_deact[where n=n and active=active])

lemma deactivateIfHashDiffers_loop_deact:
  "deactivateIfHashDiffers_loop env mgr w compID cs = (out, mgr') \<Longrightarrow>
   n \<le> length (trace mgr) \<Longrightarrow> list_all (deact_known active (pathHashes mgr)) (drop n (trace mgr)) \<Longrightarrow>
   pathHashes mgr \<lparr>User = User compID, Repo = Repo compID\<rparr> \<noteq> None \<Longrightarrow>
     n \<le> length (trace mgr')
     \<and> pathHashes mgr' \<lparr>User = User compID, Repo = Repo compID\<rparr> \<noteq> None
     \<and> list_all (deact_known active (pathHashes mgr')) (drop n (trace mgr'))"
  by (induction cs arbitrary: mgr) (auto simp: prims split: sc_splits)

lemma deactivateIfHashDiffers_deact:
  "deactivateIfHashDiffers env mgr w compID = (out, mgr') \<Longrightarrow>
   n \<le> length (trace mgr) \<Longrightarrow> list_all (deact_known active (pathHashes mgr)) (drop n (trace mgr)) \<Longrightarrow>
   pathHashes mgr \<lparr>User = User compID, Repo = Repo compID\<rparr> \<noteq> None \<Longrightarrow>
     n \<le> length (trace mgr')
     \<and> pathHashes mgr' \<lparr>User = User compID, Repo = Repo compID\<rparr> \<noteq> None
     \<and> list_all (deact_known active (pathHashes mgr')) (drop n (trace mgr'))"
  unfolding deactivateIfHashDiffers_def
  by (auto simp: prims split: sc_splits
      dest!: deactivateIfHashDiffers_loop_deact[where n=n and active=active])

lemma phase4_workers_loop_deact:
  "phase4_workers_loop env mgr compID ws = (out, mgr') \<Longrightarrow>
   n \<le> length (trace mgr) \<Longrightarrow> list_all (deact_known active (pathHashes mgr)) (drop n (trace mgr)) \<Longrightarrow>
   pathHashes mgr \<lparr>User = User compID, Repo = Repo compID\<rparr> \<noteq> None \<Longrightarrow>
     n \<le> length (trace mgr')
     \<and> pathHashes mgr' \<lparr>User = User compID, Repo = Repo compID\<rparr> \<noteq> None
     \<and> list_all (deact_known active (pathHashes mgr')) (drop n (trace mgr'))"
  by (induction ws arbitrary: mgr)
     (auto simp: prims split: sc_splits
       dest!: deactivateIfHashDiffers_deact[where n=n and active=active])

lemma phase4_loop_deact:
  "phase4_loop env mgr rest = (out, mgr') \<Longrightarrow>
   n \<le> length (trace mgr) \<Longrightarrow> list_all (deact_known active (pathHashes mgr)) (drop n (trace mgr)) \<Longrightarrow>
     n \<le> length (trace mgr')
     \<and> list_all (deact_known active (pathHashes mgr')) (drop n (trace mgr'))"
  by (induction rest arbitrary: mgr)
     (auto simp: prims split: sc_splits
       dest!: phase4_workers_loop_deact[where n=n and active=active])

lemma HandleDirtyState_deact:
  "HandleDirtyState env mgr = (out, mgr') \<Longrightarrow>
   fst (FindActiveComponents env (world mgr)) = Inr active \<Longrightarrow> n = length (trace mgr) \<Longrightarrow>
     list_all (deact_known active (pathHashes mgr')) (drop n (trace mgr'))"
  unfolding HandleDirtyState_def
  by (auto simp: prims split: sc_splits
       dest!: phase1_loop_deact[where n=n and active=active]
              phase2_loop_deact[where n=n and active=active]
              phase3_loop_deact[where n=n and active=active]
              phase4_loop_deact[where n=n and active=active])

lemma contains_iff: "contains l v \<longleftrightarrow> \<lparr>User = User v, Repo = Repo v\<rparr> \<in> set l"
proof (induction l)
  case Nil
  then show ?case by simp
next
  case (Cons c l)
  have "(c = \<lparr>User = User v, Repo = Repo v\<rparr>) = (Repo c = Repo v \<and> User c = User v)"
    by (cases c) auto
  with Cons show ?case
    by auto
qed

subsection \<open>No spurious teardown\<close>

text \<open>
  Claim C5, amended.  For a desired path with no entry in the version index at the start
  of the pass, the pass issues no \<open>Deactivate\<close> for a component of that path unless it
  has itself activated the path at \<open>HEAD\<close> (which Phase 2 does when it finds the path
  running nowhere, and which puts the resolved hash into the index for Phases 3 and 4).
\<close>

theorem no_spurious_teardown:
  assumes "HandleDirtyState env mgr = (out, mgr')"
      and "fst (FindActiveComponents env (world mgr)) = Inr active"
      and "p \<in> set active"
      and "pathHashes mgr p = None"
  shows "\<exists>evs. trace mgr' = trace mgr @ evs
           \<and> ((\<forall>w h. EvActivate \<lparr>User = User p, Repo = Repo p, Hash = headHashSentinel\<rparr>
                        w (Inr h) \<notin> set evs)
                \<longrightarrow> (\<forall>c w r. EvDeactivate c w r \<in> set evs
                        \<longrightarrow> \<lparr>User = User c, Repo = Repo c\<rparr> \<noteq> p))"
proof -
  define evs where "evs = drop (length (trace mgr)) (trace mgr')"
  have evs: "trace mgr' = trace mgr @ evs"
    unfolding evs_def by (rule HandleDirtyState_appends [OF assms(1)])
  have known: "list_all (deact_known active (pathHashes mgr')) evs"
    unfolding evs_def by (rule HandleDirtyState_deact [OF assms(1,2) refl])
  from HandleDirtyState_replay [OF assms(1), of "length (trace mgr)" "pathHashes mgr"]
  have index: "pathHashes mgr' = replay evs (pathHashes mgr)"
    by (simp add: evs_def)
  have "\<lparr>User = User c, Repo = Repo c\<rparr> \<noteq> p"
    if quiet: "\<forall>w h. EvActivate \<lparr>User = User p, Repo = Repo p, Hash = headHashSentinel\<rparr>
                       w (Inr h) \<notin> set evs"
      and c: "EvDeactivate c w r \<in> set evs" for c w r
  proof
    assume eq: "\<lparr>User = User c, Repo = Repo c\<rparr> = p"
    from known c have "deact_known active (pathHashes mgr') (EvDeactivate c w r)"
      unfolding list_all_iff by blast
    moreover from eq assms(3) have "contains active c"
      by (simp add: contains_iff)
    ultimately have "pathHashes mgr' p \<noteq> None"
      using eq by simp
    moreover from replay_cases [of evs "pathHashes mgr" p] quiet index assms(4)
    have "pathHashes mgr' p = None"
      by auto
    ultimately show False
      by simp
  qed
  with evs show ?thesis
    by blast
qed

theorem no_spurious_teardown_witness:
  "fst (FindActiveComponents rollout_env (world (NewActionManager [W1, W2] (0::nat)))) = Inr [svc]
   \<and> svc \<in> set [svc]
   \<and> pathHashes (NewActionManager [W1, W2] (0::nat)) svc = None
   \<and> filter is_command (trace (snd (HandleDirtyState rollout_env (NewActionManager [W1, W2] 0))))
       = []"
  using no_spurious_teardown [OF surjective_pairing, of rollout_env
          "NewActionManager [W1, W2] 0" "[svc]" svc]
  by (simp add: model_defs fixture_defs rollout_env_def Let_def)

text \<open>
  The claim C5 as stated fails: the path is desired and has no index entry at the start,
  Phase 2 finds it running nowhere and activates it at \<open>HEAD\<close>, the index now knows the
  resolved hash \<open>h2\<close>, and Phases 3 and 4, which read the index afresh, deactivate
  components of that path when the worker then reports it at another hash.
\<close>

theorem no_spurious_teardown_counterexample:
  "fst (FindActiveComponents late_env (world (NewActionManager [W1] (0::nat)))) = Inr [svc]
   \<and> svc \<in> set [svc]
   \<and> pathHashes (NewActionManager [W1] (0::nat)) svc = None
   \<and> filter is_command (trace (snd (HandleDirtyState late_env (NewActionManager [W1] 0)))) =
       [EvActivate (svc_at ''HEAD'') W1 (Inr ''h2''),
        EvDeactivate (svc_at ''h2'') W1 None,
        EvActivate (svc_at ''h2'') W1 (Inr ''h2''),
        EvDeactivate (svc_at ''h1'') W1 None]
   \<and> \<lparr>User = User (svc_at ''h1''), Repo = Repo (svc_at ''h1'')\<rparr> = svc"
  by (simp add: model_defs fixture_defs late_env_def Let_def)

subsection \<open>A pass over a converged fleet\<close>

lemma quietly_refl: "I (world mgr) \<Longrightarrow> quietly I mgr mgr"
  by (simp add: quietly_def)

lemma quietly_trans: "quietly I a b \<Longrightarrow> quietly I b c \<Longrightarrow> quietly I a c"
  by (simp add: quietly_def)

lemma call_Status_quietly:
  assumes "answers env I ws snap" "I (world mgr)" "w \<in> set ws"
  shows "\<exists>mgr'. call_Status env mgr w = (Inr (snap w), mgr') \<and> quietly I mgr mgr'"
proof -
  from assms have "fst (worker_Status env (world mgr) w) = Inr (snap w)"
    and "I (snd (worker_Status env (world mgr) w))"
    by (auto simp: answers_def)
  then show ?thesis
    by (cases "worker_Status env (world mgr) w") (auto simp: call_Status_def quietly_def)
qed

lemma read_pathHashes_quietly:
  "I (world mgr) \<Longrightarrow>
     \<exists>mgr'. read_pathHashes mgr p = (pathHashes mgr p, mgr') \<and> quietly I mgr mgr'"
  by (simp add: read_pathHashes_def quietly_def)

lemma deactivateNonactive_quietly:
  assumes "answers env I ws snap" "I (world mgr)" "w \<in> set ws"
    and "list_all (\<lambda>rc. contains active (ID rc)) (ActiveComponents (snap w))"
  shows "\<exists>mgr'. deactivateNonactive env mgr w active = (Ok, mgr') \<and> quietly I mgr mgr'"
proof -
  from call_Status_quietly [OF assms(1-3)] obtain mgr1
    where 1: "call_Status env mgr w = (Inr (snap w), mgr1)" and q: "quietly I mgr mgr1"
    by blast
  from assms(4) have "FindNonactive (snap w) active = []"
    by (simp add: FindNonactive_def list_all_iff)
  with 1 q show ?thesis
    by (simp add: deactivateNonactive_def)
qed

lemma phase1_loop_quietly:
  assumes "answers env I ws snap"
    and "list_all (\<lambda>w. list_all (\<lambda>rc. contains active (ID rc)) (ActiveComponents (snap w))) ws"
  shows "I (world mgr) \<Longrightarrow> set ws' \<subseteq> set ws \<Longrightarrow>
         \<exists>mgr'. phase1_loop env mgr active ws' = (Ok, mgr') \<and> quietly I mgr mgr'"
proof (induction ws' arbitrary: mgr)
  case Nil
  then show ?case by (simp add: quietly_refl)
next
  case (Cons w ws')
  then have w: "w \<in> set ws" by simp
  with assms(2) have "list_all (\<lambda>rc. contains active (ID rc)) (ActiveComponents (snap w))"
    by (simp add: list_all_iff)
  from deactivateNonactive_quietly [OF assms(1) Cons.prems(1) w this] obtain mgr1
    where 1: "deactivateNonactive env mgr w active = (Ok, mgr1)" and q: "quietly I mgr mgr1"
    by blast
  from Cons.IH [of mgr1] q Cons.prems obtain mgr'
    where 2: "phase1_loop env mgr1 active ws' = (Ok, mgr')" and q': "quietly I mgr1 mgr'"
    by (auto simp: quietly_def)
  from 1 2 q q' show ?case
    by (auto intro: quietly_trans)
qed

lemma activateMissing_scan_quietly:
  assumes "answers env I ws snap"
  shows "I (world mgr) \<Longrightarrow> set ws' \<subseteq> set ws \<Longrightarrow> \<exists>w\<in>set ws'. ContainsPath (snap w) path \<Longrightarrow>
         \<exists>mgr'. activateMissing_scan env mgr path ws' = (Some Ok, mgr') \<and> quietly I mgr mgr'"
proof (induction ws' arbitrary: mgr)
  case Nil
  then show ?case by simp
next
  case (Cons w ws')
  then have w: "w \<in> set ws" by simp
  from call_Status_quietly [OF assms Cons.prems(1) w] obtain mgr1
    where 1: "call_Status env mgr w = (Inr (snap w), mgr1)" and q: "quietly I mgr mgr1"
    by blast
  show ?case
  proof (cases "ContainsPath (snap w) path")
    case True
    with 1 q show ?thesis by simp
  next
    case False
    with Cons.prems have "\<exists>w\<in>set ws'. ContainsPath (snap w) path" by auto
    with Cons.IH [of mgr1] q Cons.prems obtain mgr'
      where 2: "activateMissing_scan env mgr1 path ws' = (Some Ok, mgr')"
        and q': "quietly I mgr1 mgr'"
      by (auto simp: quietly_def)
    from 1 2 q q' False show ?thesis
      by (auto intro: quietly_trans)
  qed
qed

lemma activateMissing_quietly:
  assumes "answers env I (workers mgr) snap" "I (world mgr)"
    and "\<exists>w\<in>set (workers mgr). ContainsPath (snap w) \<lparr>User = User toCheck, Repo = Repo toCheck\<rparr>"
  shows "\<exists>mgr'. activateMissing env mgr toCheck = (Ok, mgr') \<and> quietly I mgr mgr'"
  using activateMissing_scan_quietly [OF assms(1,2) subset_refl assms(3)]
  by (auto simp: activateMissing_def)

lemma ensureSomeWorkerIsRunning_scan_quietly:
  assumes "answers env I ws snap"
  shows "I (world mgr) \<Longrightarrow> set ws' \<subseteq> set ws \<Longrightarrow> \<exists>w\<in>set ws'. ContainsExactly (snap w) compID \<Longrightarrow>
         \<exists>mgr'. ensureSomeWorkerIsRunning_scan env mgr compID nr ws' = (Inl Ok, mgr')
                \<and> quietly I mgr mgr'"
proof (induction ws' arbitrary: mgr nr)
  case Nil
  then show ?case by simp
next
  case (Cons w ws')
  then have w: "w \<in> set ws" by simp
  from call_Status_quietly [OF assms Cons.prems(1) w] obtain mgr1
    where 1: "call_Status env mgr w = (Inr (snap w), mgr1)" and q: "quietly I mgr mgr1"
    by blast
  show ?case
  proof (cases "ContainsExactly (snap w) compID")
    case True
    with 1 q show ?thesis by (simp add: ContainsExactly_def)
  next
    case False
    with Cons.prems have ex: "\<exists>w\<in>set ws'. ContainsExactly (snap w) compID" by auto
    have world: "I (world mgr1)" and sub: "set ws' \<subseteq> set ws"
      using q Cons.prems by (auto simp: quietly_def)
    from Cons.IH [OF world sub ex] have
      "\<forall>nr'. \<exists>mgr'. ensureSomeWorkerIsRunning_scan env mgr1 compID nr' ws' = (Inl Ok, mgr')
                \<and> quietly I mgr1 mgr'"
      by blast
    with 1 q False show ?thesis
      by (auto simp: ContainsExactly_def intro: quietly_trans)
  qed
qed

lemma ensureSomeWorkerIsRunning_quietly:
  assumes "answers env I (workers mgr) snap" "I (world mgr)"
    and "\<exists>w\<in>set (workers mgr). ContainsExactly (snap w) compID"
  shows "\<exists>mgr'. ensureSomeWorkerIsRunning env mgr compID = (Ok, mgr') \<and> quietly I mgr mgr'"
  using ensureSomeWorkerIsRunning_scan_quietly [OF assms(1,2) subset_refl assms(3), of "[]"]
  by (auto simp: ensureSomeWorkerIsRunning_def)

lemma deactivateIfHashDiffers_loop_none:
  "\<forall>rc\<in>set cs. User (ID rc) = User compID \<and> Repo (ID rc) = Repo compID
       \<longrightarrow> Hash (ID rc) = Hash compID \<Longrightarrow>
   deactivateIfHashDiffers_loop env mgr w compID cs = (Ok, mgr)"
  by (induction cs) auto

lemma deactivateIfHashDiffers_quietly:
  assumes "answers env I ws snap" "I (world mgr)" "w \<in> set ws"
    and "\<forall>rc\<in>set (ActiveComponents (snap w)).
           User (ID rc) = User compID \<and> Repo (ID rc) = Repo compID \<longrightarrow> Hash (ID rc) = Hash compID"
  shows "\<exists>mgr'. deactivateIfHashDiffers env mgr w compID = (Ok, mgr') \<and> quietly I mgr mgr'"
proof -
  from call_Status_quietly [OF assms(1-3)] obtain mgr1
    where 1: "call_Status env mgr w = (Inr (snap w), mgr1)" and q: "quietly I mgr mgr1"
    by blast
  with deactivateIfHashDiffers_loop_none [OF assms(4), of env mgr1 w] show ?thesis
    by (simp add: deactivateIfHashDiffers_def)
qed

lemma phase4_workers_loop_quietly:
  assumes "answers env I ws snap"
    and "\<forall>w\<in>set ws. \<forall>rc\<in>set (ActiveComponents (snap w)).
           User (ID rc) = User compID \<and> Repo (ID rc) = Repo compID \<longrightarrow> Hash (ID rc) = Hash compID"
  shows "I (world mgr) \<Longrightarrow> set ws' \<subseteq> set ws \<Longrightarrow>
         \<exists>mgr'. phase4_workers_loop env mgr compID ws' = (Ok, mgr') \<and> quietly I mgr mgr'"
proof (induction ws' arbitrary: mgr)
  case Nil
  then show ?case by (simp add: quietly_refl)
next
  case (Cons w ws')
  then have w: "w \<in> set ws" by simp
  with assms(2) have "\<forall>rc\<in>set (ActiveComponents (snap w)).
           User (ID rc) = User compID \<and> Repo (ID rc) = Repo compID \<longrightarrow> Hash (ID rc) = Hash compID"
    by blast
  from deactivateIfHashDiffers_quietly [OF assms(1) Cons.prems(1) w this] obtain mgr1
    where 1: "deactivateIfHashDiffers env mgr w compID = (Ok, mgr1)" and q: "quietly I mgr mgr1"
    by blast
  from Cons.IH [of mgr1] q Cons.prems obtain mgr'
    where 2: "phase4_workers_loop env mgr1 compID ws' = (Ok, mgr')" and q': "quietly I mgr1 mgr'"
    by (auto simp: quietly_def)
  from 1 2 q q' show ?case
    by (auto intro: quietly_trans)
qed

lemma phase2_loop_quietly:
  assumes "answers env I ws snap"
  shows "I (world mgr) \<Longrightarrow> workers mgr = ws \<Longrightarrow>
         \<forall>p\<in>set rest. \<exists>w\<in>set ws. ContainsPath (snap w) p \<Longrightarrow>
         \<exists>mgr'. phase2_loop env mgr rest = (Ok, mgr') \<and> quietly I mgr mgr'"
proof (induction rest arbitrary: mgr)
  case Nil
  then show ?case by (simp add: quietly_refl)
next
  case (Cons p rest)
  from read_pathHashes_quietly [where I=I and mgr=mgr and p=p, OF Cons.prems(1)] obtain mgr0
    where 0: "read_pathHashes mgr p = (pathHashes mgr p, mgr0)" and q0: "quietly I mgr mgr0"
    by blast
  define toCheck where
    "toCheck = \<lparr>User = User p, Repo = Repo p,
                Hash = (case pathHashes mgr p of Some mapHash \<Rightarrow> mapHash | None \<Rightarrow> headHashSentinel)\<rparr>"
  have "answers env I (workers mgr0) snap" "I (world mgr0)"
    and "\<exists>w\<in>set (workers mgr0). ContainsPath (snap w) \<lparr>User = User toCheck, Repo = Repo toCheck\<rparr>"
    using assms q0 Cons.prems by (auto simp: quietly_def toCheck_def)
  from activateMissing_quietly [OF this] obtain mgr1
    where 1: "activateMissing env mgr0 toCheck = (Ok, mgr1)" and q1: "quietly I mgr0 mgr1"
    by blast
  from Cons.IH [of mgr1] q0 q1 Cons.prems obtain mgr'
    where 2: "phase2_loop env mgr1 rest = (Ok, mgr')" and q': "quietly I mgr1 mgr'"
    by (auto simp: quietly_def)
  from 0 1 2 q0 q1 q' show ?case
    by (auto simp: toCheck_def intro: quietly_trans)
qed

lemma phase3_loop_quietly:
  assumes "answers env I ws snap"
  shows "I (world mgr) \<Longrightarrow> workers mgr = ws \<Longrightarrow>
         \<forall>p\<in>set rest. \<forall>h. pathHashes mgr p = Some h \<longrightarrow>
            (\<exists>w\<in>set ws. ContainsExactly (snap w) \<lparr>User = User p, Repo = Repo p, Hash = h\<rparr>) \<Longrightarrow>
         \<exists>mgr'. phase3_loop env mgr rest = (Ok, mgr') \<and> quietly I mgr mgr'"
proof (induction rest arbitrary: mgr)
  case Nil
  then show ?case by (simp add: quietly_refl)
next
  case (Cons p rest)
  from read_pathHashes_quietly [where I=I and mgr=mgr and p=p, OF Cons.prems(1)] obtain mgr0
    where 0: "read_pathHashes mgr p = (pathHashes mgr p, mgr0)" and q0: "quietly I mgr mgr0"
    by blast
  show ?case
  proof (cases "pathHashes mgr p")
    case None
    from Cons.IH [of mgr0] q0 Cons.prems obtain mgr'
      where 2: "phase3_loop env mgr0 rest = (Ok, mgr')" and q': "quietly I mgr0 mgr'"
      by (auto simp: quietly_def)
    from 0 None 2 q0 q' show ?thesis
      by (auto intro: quietly_trans)
  next
    case (Some h)
    have "answers env I (workers mgr0) snap" "I (world mgr0)"
      and "\<exists>w\<in>set (workers mgr0).
             ContainsExactly (snap w) \<lparr>User = User p, Repo = Repo p, Hash = h\<rparr>"
      using assms q0 Cons.prems Some by (auto simp: quietly_def)
    from ensureSomeWorkerIsRunning_quietly [OF this] obtain mgr1
      where 1: "ensureSomeWorkerIsRunning env mgr0 \<lparr>User = User p, Repo = Repo p, Hash = h\<rparr>
                  = (Ok, mgr1)"
        and q1: "quietly I mgr0 mgr1"
      by blast
    from Cons.IH [of mgr1] q0 q1 Cons.prems obtain mgr'
      where 2: "phase3_loop env mgr1 rest = (Ok, mgr')" and q': "quietly I mgr1 mgr'"
      by (auto simp: quietly_def)
    from 0 Some 1 2 q0 q1 q' show ?thesis
      by (auto intro: quietly_trans)
  qed
qed

lemma phase4_loop_quietly:
  assumes "answers env I ws snap"
  shows "I (world mgr) \<Longrightarrow> workers mgr = ws \<Longrightarrow>
         \<forall>p\<in>set rest. \<forall>h. pathHashes mgr p = Some h \<longrightarrow>
            (\<forall>w\<in>set ws. \<forall>rc\<in>set (ActiveComponents (snap w)).
               User (ID rc) = User p \<and> Repo (ID rc) = Repo p \<longrightarrow> Hash (ID rc) = h) \<Longrightarrow>
         \<exists>mgr'. phase4_loop env mgr rest = (Ok, mgr') \<and> quietly I mgr mgr'"
proof (induction rest arbitrary: mgr)
  case Nil
  then show ?case by (simp add: quietly_refl)
next
  case (Cons p rest)
  from read_pathHashes_quietly [where I=I and mgr=mgr and p=p, OF Cons.prems(1)] obtain mgr0
    where 0: "read_pathHashes mgr p = (pathHashes mgr p, mgr0)" and q0: "quietly I mgr mgr0"
    by blast
  show ?case
  proof (cases "pathHashes mgr p")
    case None
    from Cons.IH [of mgr0] q0 Cons.prems obtain mgr'
      where 2: "phase4_loop env mgr0 rest = (Ok, mgr')" and q': "quietly I mgr0 mgr'"
      by (auto simp: quietly_def)
    from 0 None 2 q0 q' show ?thesis
      by (auto intro: quietly_trans)
  next
    case (Some h)
    define compID where "compID = \<lparr>User = User p, Repo = Repo p, Hash = h\<rparr>"
    have stale: "\<forall>w\<in>set ws. \<forall>rc\<in>set (ActiveComponents (snap w)).
           User (ID rc) = User compID \<and> Repo (ID rc) = Repo compID \<longrightarrow> Hash (ID rc) = Hash compID"
      using Cons.prems(3) Some by (simp add: compID_def)
    have "I (world mgr0)" "set (workers mgr0) \<subseteq> set ws"
      using q0 Cons.prems by (auto simp: quietly_def)
    from phase4_workers_loop_quietly [OF assms stale this] obtain mgr1
      where 1: "phase4_workers_loop env mgr0 compID (workers mgr0) = (Ok, mgr1)"
        and q1: "quietly I mgr0 mgr1"
      by blast
    from Cons.IH [of mgr1] q0 q1 Cons.prems obtain mgr'
      where 2: "phase4_loop env mgr1 rest = (Ok, mgr')" and q': "quietly I mgr1 mgr'"
      by (auto simp: quietly_def)
    from 0 Some 1 2 q0 q1 q' show ?thesis
      by (auto simp: compID_def intro: quietly_trans)
  qed
qed

lemma ContainsExactly_ContainsPath:
  assumes "ContainsExactly s \<lparr>User = User p, Repo = Repo p, Hash = h\<rparr>"
  shows "ContainsPath s p"
proof -
  from assms obtain rc where rc: "rc \<in> set (ActiveComponents s)"
    and "ID rc = \<lparr>User = User p, Repo = Repo p, Hash = h\<rparr>"
    by (auto simp: ContainsExactly_def list_ex_iff)
  then have "User (ID rc) = User p \<and> Repo (ID rc) = Repo p"
    by simp
  with rc show ?thesis
    unfolding ContainsPath_def list_ex_iff by blast
qed

lemma converged_exact:
  assumes "converged active versions ws snap" "p \<in> set active" "versions p = Some h"
  shows "\<exists>w\<in>set ws. ContainsExactly (snap w) \<lparr>User = User p, Repo = Repo p, Hash = h\<rparr>"
proof -
  from assms have
    "length (filter (\<lambda>w. ContainsExactly (snap w) \<lparr>User = User p, Repo = Repo p, Hash = h\<rparr>) ws) = 1"
    by (auto simp: converged_def list_all_iff)
  then have
    "filter (\<lambda>w. ContainsExactly (snap w) \<lparr>User = User p, Repo = Repo p, Hash = h\<rparr>) ws \<noteq> []"
    by auto
  then show ?thesis
    by (auto simp: filter_empty_conv)
qed

lemma converged_known:
  "converged active versions ws snap \<Longrightarrow> p \<in> set active \<Longrightarrow> \<exists>h. versions p = Some h"
  by (auto simp: converged_def list_all_iff split: option.splits)

lemma no_stale_hash:
  assumes "no_stale versions ws snap" "w \<in> set ws" "rc \<in> set (ActiveComponents (snap w))"
    and "User (ID rc) = User p" "Repo (ID rc) = Repo p" "versions p = Some h"
  shows "Hash (ID rc) = h"
proof -
  from assms(4,5) have "\<lparr>User = User (ID rc), Repo = Repo (ID rc)\<rparr> = p"
    by (cases p) simp
  with assms(1-3,6) show ?thesis
    by (auto simp: no_stale_def list_all_iff split: option.splits)
qed

text \<open>
  Claim C4, amended.  When the fleet is converged and, in addition, no worker runs a
  desired path at a hash other than the one in the index, and every \<open>Status\<close> call is
  answered with that fleet state, a pass returns \<open>nil\<close>, issues no \<open>Activate\<close> and no
  \<open>Deactivate\<close>, and leaves the version index unchanged.
\<close>

theorem converged_pass_issues_no_commands:
  assumes "FindActiveComponents env (world mgr) = (Inr active, \<sigma>)"
      and "I \<sigma>"
      and "answers env I (workers mgr) snap"
      and "converged active (pathHashes mgr) (workers mgr) snap"
      and "no_stale (pathHashes mgr) (workers mgr) snap"
  shows "\<exists>mgr' evs. HandleDirtyState env mgr = (Ok, mgr') \<and> trace mgr' = trace mgr @ evs
           \<and> filter is_command evs = [] \<and> pathHashes mgr' = pathHashes mgr"
proof -
  define mgr0 where "mgr0 = mgr\<lparr>world := \<sigma>, trace := trace mgr @ [EvFindActive (Inr active)]\<rparr>"
  have 0: "call_FindActiveComponents env mgr = (Inr active, mgr0)"
    using assms(1) by (simp add: call_FindActiveComponents_def mgr0_def)
  have q0: "quietly I mgr mgr0"
    using assms(2) by (simp add: quietly_def mgr0_def)
  have ws0: "workers mgr0 = workers mgr" and idx0: "pathHashes mgr0 = pathHashes mgr"
    and w0: "I (world mgr0)"
    using assms(2) by (simp_all add: mgr0_def)
  have running: "list_all (\<lambda>w. list_all (\<lambda>rc. contains active (ID rc)) (ActiveComponents (snap w)))
                   (workers mgr)"
    using assms(4) by (simp add: converged_def)
  from phase1_loop_quietly [OF assms(3) running w0 subset_refl] obtain mgr1
    where 1: "phase1_loop env mgr0 active (workers mgr) = (Ok, mgr1)" and q1: "quietly I mgr0 mgr1"
    by blast
  have "\<forall>p\<in>set active. \<exists>w\<in>set (workers mgr). ContainsPath (snap w) p"
    using converged_exact [OF assms(4)] converged_known [OF assms(4)]
      ContainsExactly_ContainsPath by blast
  from phase2_loop_quietly [OF assms(3) _ _ this, of mgr1] q1 ws0 obtain mgr2
    where 2: "phase2_loop env mgr1 active = (Ok, mgr2)" and q2: "quietly I mgr1 mgr2"
    by (auto simp: quietly_def)
  have idx2: "pathHashes mgr2 = pathHashes mgr" and ws2: "workers mgr2 = workers mgr"
    and w2: "I (world mgr2)"
    using q1 q2 idx0 ws0 by (auto simp: quietly_def)
  have "\<forall>p\<in>set active. \<forall>h. pathHashes mgr2 p = Some h \<longrightarrow>
            (\<exists>w\<in>set (workers mgr).
               ContainsExactly (snap w) \<lparr>User = User p, Repo = Repo p, Hash = h\<rparr>)"
    using converged_exact [OF assms(4)] idx2 by auto
  from phase3_loop_quietly [OF assms(3) w2 ws2 this] obtain mgr3
    where 3: "phase3_loop env mgr2 active = (Ok, mgr3)" and q3: "quietly I mgr2 mgr3"
    by blast
  have idx3: "pathHashes mgr3 = pathHashes mgr" and ws3: "workers mgr3 = workers mgr"
    and w3: "I (world mgr3)"
    using q3 idx2 ws2 by (auto simp: quietly_def)
  have "\<forall>p\<in>set active. \<forall>h. pathHashes mgr3 p = Some h \<longrightarrow>
            (\<forall>w\<in>set (workers mgr). \<forall>rc\<in>set (ActiveComponents (snap w)).
               User (ID rc) = User p \<and> Repo (ID rc) = Repo p \<longrightarrow> Hash (ID rc) = h)"
  proof (intro ballI allI impI)
    fix p h w rc
    assume "pathHashes mgr3 p = Some h" "w \<in> set (workers mgr)"
      "rc \<in> set (ActiveComponents (snap w))"
      "User (ID rc) = User p \<and> Repo (ID rc) = Repo p"
    then show "Hash (ID rc) = h"
      using no_stale_hash [OF assms(5), of w rc p h] idx3 by simp
  qed
  from phase4_loop_quietly [OF assms(3) w3 ws3 this] obtain mgr4
    where 4: "phase4_loop env mgr3 active = (Ok, mgr4)" and q4: "quietly I mgr3 mgr4"
    by blast
  have run: "HandleDirtyState env mgr = (Ok, mgr4)"
    using 0 1 2 3 4 ws0 by (simp add: HandleDirtyState_def)
  have q: "quietly I mgr mgr4"
    using q0 q1 q2 q3 q4 by (blast intro: quietly_trans)
  define evs where "evs = drop (length (trace mgr)) (trace mgr4)"
  have evs: "trace mgr4 = trace mgr @ evs"
    unfolding evs_def by (rule HandleDirtyState_appends [OF run])
  from q have "filter is_command (trace mgr4) = filter is_command (trace mgr)"
    by (simp add: quietly_def)
  with evs have "filter is_command evs = []"
    by simp
  with run evs q show ?thesis
    by (auto simp: quietly_def)
qed

theorem converged_pass_issues_no_commands_witness:
  "FindActiveComponents settled_env (world rollout_mgr) = (Inr [svc], 0)
   \<and> any_world 0
   \<and> answers settled_env any_world (workers rollout_mgr) (\<lambda>w. status_of (settled_reports w))
   \<and> converged [svc] (pathHashes rollout_mgr) (workers rollout_mgr)
        (\<lambda>w. status_of (settled_reports w))
   \<and> no_stale (pathHashes rollout_mgr) (workers rollout_mgr) (\<lambda>w. status_of (settled_reports w))
   \<and> fst (HandleDirtyState settled_env rollout_mgr) = Ok
   \<and> filter is_command (trace (snd (HandleDirtyState settled_env rollout_mgr))) = []"
proof -
  have 1: "FindActiveComponents settled_env (world rollout_mgr) = (Inr [svc], 0)"
    by (simp add: settled_env_def fixture_defs rollout_mgr_def)
  have 2: "any_world 0"
    by (simp add: any_world_def)
  have 3: "answers settled_env any_world (workers rollout_mgr) (\<lambda>w. status_of (settled_reports w))"
    by (simp add: answers_def any_world_def settled_env_def scripted_env_def)
  have 4: "converged [svc] (pathHashes rollout_mgr) (workers rollout_mgr)
             (\<lambda>w. status_of (settled_reports w))"
    by (simp add: converged_def ContainsExactly_def settled_reports_def fixture_defs rollout_mgr_def)
  have 5: "no_stale (pathHashes rollout_mgr) (workers rollout_mgr)
             (\<lambda>w. status_of (settled_reports w))"
    by (simp add: no_stale_def settled_reports_def fixture_defs rollout_mgr_def)
  from converged_pass_issues_no_commands [OF 1 2 3 4 5] 1 2 3 4 5 show ?thesis
    by (auto simp: rollout_mgr_def NewActionManager_def)
qed

text \<open>
  The claim C4 as stated fails: with the index at \<open>h2\<close>, exactly one worker runs the
  path at \<open>h2\<close> and no worker runs a path that is not desired, but the other worker
  runs the desired path at the old hash \<open>h1\<close>, which Phase 4 deactivates.
\<close>

theorem converged_pass_counterexample:
  "FindActiveComponents stale_env (world rollout_mgr) = (Inr [svc], 0)
   \<and> answers stale_env any_world (workers rollout_mgr) (\<lambda>w. status_of (stale_reports w))
   \<and> converged [svc] (pathHashes rollout_mgr) (workers rollout_mgr)
        (\<lambda>w. status_of (stale_reports w))
   \<and> fst (HandleDirtyState stale_env rollout_mgr) = Ok
   \<and> filter is_command (trace (snd (HandleDirtyState stale_env rollout_mgr)))
       = [EvDeactivate (svc_at ''h1'') W2 None]"
proof -
  have "answers stale_env any_world (workers rollout_mgr) (\<lambda>w. status_of (stale_reports w))"
    by (simp add: answers_def any_world_def stale_env_def scripted_env_def)
  moreover have "converged [svc] (pathHashes rollout_mgr) (workers rollout_mgr)
        (\<lambda>w. status_of (stale_reports w))"
    by (simp add: converged_def ContainsExactly_def stale_reports_def fixture_defs rollout_mgr_def)
  moreover have "FindActiveComponents stale_env (world rollout_mgr) = (Inr [svc], 0)
   \<and> fst (HandleDirtyState stale_env rollout_mgr) = Ok
   \<and> filter is_command (trace (snd (HandleDirtyState stale_env rollout_mgr)))
       = [EvDeactivate (svc_at ''h1'') W2 None]"
    by (simp add: model_defs fixture_defs stale_env_def stale_reports_def rollout_mgr_def Let_def)
  ultimately show ?thesis
    by blast
qed

end
